theory Spec2Isabelle
  imports Complex_Main "HOL-Library.Sublist" "HOL-Library.AList" "HOL-Library.Multiset"
    "HOL-Library.List_Lexorder" "HOL-Library.Char_ord"
begin

section \<open>Python values, exceptions and the interpreter\<close>

text \<open>
  The program is \<^verbatim>\<open>src/consensus/main.py\<close>. A value decoded from a JSON body, and
  so every value an adapter can return, is a \<open>json\<close>: Python's \<open>None\<close>, \<open>bool\<close>,
  \<open>int\<close>, \<open>float\<close>, \<open>str\<close>, \<open>list\<close> and \<open>dict\<close> (the items of the dict, in
  insertion order, keys distinct).

  A Python string is the sequence of its code points. Here a string is an Isabelle
  string whose characters are the code points \<open>0\<close> to \<open>255\<close> (Latin-1), one character
  for each code point, so that \<open>length\<close> is Python's \<open>len\<close>. On these strings \<open>lower\<close>
  and \<open>split\<close> below are Python's \<open>str.lower\<close> and \<open>str.split\<close>; strings with a code
  point above \<open>255\<close> are outside this theory.
\<close>

datatype json =
    JNull
  | JBool bool
  | JInt int
  | JFloat rat
  | JStr string
  | JArr "json list"
  | JObj "(string \<times> json) list"

text \<open>
  The exceptions of class \<open>Exception\<close> that the program can meet. \<open>TimeoutException\<close>
  is \<open>httpx.TimeoutException\<close>; \<open>OtherException\<close> is any other exception raised by
  the HTTP client or the JSON decoder, with its message.
\<close>

datatype py_exception =
    KeyError string
  | IndexError
  | TypeError
  | AttributeError
  | TimeoutException
  | OtherException string

text \<open>
  What the interpreter computes and this theory does not: \<open>str(e)\<close> of an exception,
  \<open>str(v)\<close> of a value that is not a string (used by f-strings), and the order in which
  a set of strings is iterated by \<open>list(s)\<close>.
\<close>

record interp =
  str_exc :: "py_exception \<Rightarrow> string"
  str_val :: "json \<Rightarrow> string"
  set_iter :: "string set \<Rightarrow> string list"

definition py_format :: "interp \<Rightarrow> json \<Rightarrow> string" where
  "py_format I v = (case v of JStr s \<Rightarrow> s | _ \<Rightarrow> str_val I v)"

definition is_str :: "json \<Rightarrow> bool" where
  "is_str v = (case v of JStr s \<Rightarrow> True | _ \<Rightarrow> False)"

text \<open>\<open>v[key]\<close> for a string key, \<open>v[0]\<close>, and \<open>v.get(key, default)\<close>.\<close>

definition subscript :: "json \<Rightarrow> string \<Rightarrow> py_exception + json" where
  "subscript v key =
     (case v of
        JObj kvs \<Rightarrow> (case map_of kvs key of None \<Rightarrow> Inl (KeyError key) | Some x \<Rightarrow> Inr x)
      | _ \<Rightarrow> Inl TypeError)"

definition subscript0 :: "json \<Rightarrow> py_exception + json" where
  "subscript0 v =
     (case v of
        JArr xs \<Rightarrow> (case xs of [] \<Rightarrow> Inl IndexError | x # _ \<Rightarrow> Inr x)
      | JStr s \<Rightarrow> (case s of [] \<Rightarrow> Inl IndexError | c # _ \<Rightarrow> Inr (JStr [c]))
      | JObj kvs \<Rightarrow> Inl (KeyError ''0'')
      | _ \<Rightarrow> Inl TypeError)"

definition py_get :: "json \<Rightarrow> string \<Rightarrow> json \<Rightarrow> py_exception + json" where
  "py_get v key dflt =
     (case v of
        JObj kvs \<Rightarrow> (case map_of kvs key of None \<Rightarrow> Inr dflt | Some x \<Rightarrow> Inr x)
      | _ \<Rightarrow> Inl AttributeError)"

text \<open>Sequencing of steps that may raise: the first exception ends the computation.\<close>

definition and_then :: "'e + 'a \<Rightarrow> ('a \<Rightarrow> 'e + 'b) \<Rightarrow> 'e + 'b" where
  "and_then r f = (case r of Inl e \<Rightarrow> Inl e | Inr x \<Rightarrow> f x)"

subsection \<open>Strings\<close>

text \<open>
  \<open>s.lower()\<close>: the upper-case letters below \<open>256\<close> are \<open>A\<close> to \<open>Z\<close> (\<open>0x41\<close> to
  \<open>0x5A\<close>) and \<open>0xC0\<close> to \<open>0xDE\<close> without the multiplication sign \<open>0xD7\<close>; the
  lower-case letter of each is \<open>0x20\<close> further. Every other character is kept.
\<close>

definition lower_char :: "char \<Rightarrow> char" where
  "lower_char c =
     (let n = (of_char c :: nat)
      in if (65 \<le> n \<and> n \<le> 90) \<or> (192 \<le> n \<and> n \<le> 222 \<and> n \<noteq> 215)
         then char_of (n + 32) else c)"

definition lower :: "string \<Rightarrow> string" where
  "lower s = map lower_char s"

text \<open>
  The characters below \<open>256\<close> that \<open>str.isspace\<close> holds for: tab to carriage return,
  the four separators \<open>0x1C\<close> to \<open>0x1F\<close>, the space, next line \<open>0x85\<close> and the no-break
  space \<open>0xA0\<close>.
\<close>

definition is_space :: "char \<Rightarrow> bool" where
  "is_space c =
     (c \<in> set [CHR 0x09, CHR 0x0A, CHR 0x0B, CHR 0x0C, CHR 0x0D,
                CHR 0x1C, CHR 0x1D, CHR 0x1E, CHR 0x1F, CHR 0x20, CHR 0x85, CHR 0xA0])"

text \<open>\<open>s.split()\<close>: the maximal runs of characters that are not whitespace.\<close>

fun split_from :: "string \<Rightarrow> string \<Rightarrow> string list" where
  "split_from cur [] = (if cur = [] then [] else [cur])"
| "split_from cur (c # cs) =
     (if is_space c then (if cur = [] then split_from [] cs else cur # split_from [] cs)
      else split_from (cur @ [c]) cs)"

definition split :: "string \<Rightarrow> string list" where
  "split s = split_from [] s"

fun join :: "string \<Rightarrow> string list \<Rightarrow> string" where
  "join sep [] = []"
| "join sep [x] = x"
| "join sep (x # y # ys) = x @ sep @ join sep (y # ys)"

section \<open>The catalog\<close>

record model_config =
  name :: string
  color :: string
  api_url :: string
  model :: string

definition MODELS :: "(string \<times> model_config) list" where
  "MODELS =
     [(''claude'', \<lparr>name = ''Claude'', color = ''#D97706'',
         api_url = ''https://api.anthropic.com/v1/messages'',
         model = ''claude-sonnet-4-20250514''\<rparr>),
      (''gpt'', \<lparr>name = ''GPT-4o'', color = ''#10B981'',
         api_url = ''https://api.openai.com/v1/chat/completions'',
         model = ''gpt-4o''\<rparr>),
      (''gemini'', \<lparr>name = ''Gemini'', color = ''#3B82F6'',
         api_url = ''https://generativelanguage.googleapis.com/v1beta/models/gemini-1.5-flash:generateContent'',
         model = ''gemini-1.5-flash''\<rparr>)]"

text \<open>\<open>MODELS[k]\<close> raises \<open>KeyError\<close> for a key that is not in the catalog.\<close>

definition MODELS_at :: "string \<Rightarrow> py_exception + model_config" where
  "MODELS_at k = (case map_of MODELS k of None \<Rightarrow> Inl (KeyError k) | Some cfg \<Rightarrow> Inr cfg)"

definition claude_cfg :: model_config where
  "claude_cfg = snd (MODELS ! 0)"

definition gpt_cfg :: model_config where
  "gpt_cfg = snd (MODELS ! 1)"

definition gemini_cfg :: model_config where
  "gemini_cfg = snd (MODELS ! 2)"

section \<open>The provider adapters\<close>

text \<open>
  A conversation turn is the dict \<open>{"role": ..., "content": ...}\<close>. The HTTP client is
  the environment: \<open>client.post\<close> either raises or returns a response, whose
  \<open>json()\<close> either raises or returns the decoded body.
\<close>

record message =
  role :: string
  content :: string

record http_request =
  url :: string
  headers :: "(string \<times> string) list"
  payload :: json
  timeout :: nat

record http_response =
  status_code :: int
  body_text :: string
  body_json :: "py_exception + json"

datatype post_outcome = Raised py_exception | Returned http_response

type_synonym http_client = "http_request \<Rightarrow> post_outcome"

definition message_json :: "message \<Rightarrow> json" where
  "message_json m = JObj [(''role'', JStr (role m)), (''content'', JStr (content m))]"

text \<open>\<open>if system:\<close> holds for a string that is neither \<open>None\<close> nor empty.\<close>

definition truthy :: "string option \<Rightarrow> bool" where
  "truthy system = (case system of None \<Rightarrow> False | Some s \<Rightarrow> s \<noteq> [])"

definition system_text :: "string option \<Rightarrow> string" where
  "system_text system = (case system of None \<Rightarrow> [] | Some s \<Rightarrow> s)"

text \<open>
  The body of the inner \<open>try\<close> of the three adapters: the message of a provider's
  error body, and the response text when anything there raises.
\<close>

definition error_detail :: "http_response \<Rightarrow> json" where
  "error_detail response =
     (case and_then (body_json response) (\<lambda>error_json.
             and_then (py_get error_json ''error'' (JObj [])) (\<lambda>err.
               py_get err ''message'' (JStr (body_text response)))) of
        Inl e \<Rightarrow> JStr (body_text response)
      | Inr d \<Rightarrow> d)"

definition api_error :: "interp \<Rightarrow> string \<Rightarrow> http_response \<Rightarrow> json" where
  "api_error I label response =
     JStr (label @ '' API Error ('' @ py_format I (JInt (status_code response)) @ ''): ''
            @ py_format I (error_detail response))"

text \<open>The two \<open>except\<close> clauses, in their order.\<close>

definition handle :: "interp \<Rightarrow> string \<Rightarrow> py_exception \<Rightarrow> json" where
  "handle I label e =
     (if e = TimeoutException then JStr (''Error: '' @ label @ '' API request timed out'')
      else JStr (''Error calling '' @ label @ '': '' @ str_exc I e))"

text \<open>The outer \<open>try\<close>: post, then the status check, then the extraction of the text.\<close>

definition attempt ::
  "interp \<Rightarrow> string \<Rightarrow> (json \<Rightarrow> py_exception + json) \<Rightarrow> post_outcome \<Rightarrow> json" where
  "attempt I label extract outcome =
     (case outcome of
        Raised e \<Rightarrow> handle I label e
      | Returned response \<Rightarrow>
          if status_code response \<noteq> 200 then api_error I label response
          else (case and_then (body_json response) extract of
                  Inl e \<Rightarrow> handle I label e
                | Inr v \<Rightarrow> v))"

definition claude_extract :: "json \<Rightarrow> py_exception + json" where
  "claude_extract data =
     and_then (and_then (subscript data ''content'') subscript0) (\<lambda>b. subscript b ''text'')"

definition call_claude ::
  "interp \<Rightarrow> http_client \<Rightarrow> string \<Rightarrow> message list \<Rightarrow> string option \<Rightarrow> json" where
  "call_claude I client api_key messages system =
     attempt I ''Claude'' claude_extract
       (client \<lparr>url = api_url claude_cfg,
                headers = [(''x-api-key'', api_key), (''anthropic-version'', ''2023-06-01''),
                           (''content-type'', ''application/json'')],
                payload = JObj ([(''model'', JStr (model claude_cfg)), (''max_tokens'', JInt 4000),
                                 (''messages'', JArr (map message_json messages))]
                                @ (if truthy system then [(''system'', JStr (system_text system))]
                                   else [])),
                timeout = 60\<rparr>)"

definition gpt_extract :: "json \<Rightarrow> py_exception + json" where
  "gpt_extract data =
     and_then (and_then (and_then (subscript data ''choices'') subscript0)
                 (\<lambda>c. subscript c ''message'')) (\<lambda>m. subscript m ''content'')"

definition call_gpt ::
  "interp \<Rightarrow> http_client \<Rightarrow> string \<Rightarrow> message list \<Rightarrow> string option \<Rightarrow> json" where
  "call_gpt I client api_key messages system =
     attempt I ''GPT'' gpt_extract
       (client \<lparr>url = api_url gpt_cfg,
                headers = [(''Authorization'', ''Bearer '' @ api_key),
                           (''Content-Type'', ''application/json'')],
                payload = JObj [(''model'', JStr (model gpt_cfg)), (''max_tokens'', JInt 4000),
                                (''messages'', JArr (map message_json
                                   ((if truthy system
                                     then [\<lparr>role = ''system'', content = system_text system\<rparr>]
                                     else []) @ messages)))],
                timeout = 60\<rparr>)"

definition gemini_content :: "message \<Rightarrow> json" where
  "gemini_content msg =
     JObj [(''role'', JStr (if role msg = ''user'' then ''user'' else ''model'')),
           (''parts'', JArr [JObj [(''text'', JStr (content msg))]])]"

definition gemini_extract :: "json \<Rightarrow> py_exception + json" where
  "gemini_extract data =
     and_then (and_then (and_then (and_then (and_then (subscript data ''candidates'') subscript0)
                 (\<lambda>c. subscript c ''content'')) (\<lambda>c. subscript c ''parts'')) subscript0)
       (\<lambda>p. subscript p ''text'')"

definition call_gemini ::
  "interp \<Rightarrow> http_client \<Rightarrow> string \<Rightarrow> message list \<Rightarrow> string option \<Rightarrow> json" where
  "call_gemini I client api_key messages system =
     attempt I ''Gemini'' gemini_extract
       (client \<lparr>url = api_url gemini_cfg @ ''?key='' @ api_key,
                headers = [],
                payload = JObj ([(''contents'', JArr (map gemini_content messages)),
                                 (''generationConfig'', JObj [(''maxOutputTokens'', JInt 4000)])]
                                @ (if truthy system
                                   then [(''systemInstruction'',
                                          JObj [(''parts'', JArr [JObj [(''text'', JStr (system_text system))]])])]
                                   else [])),
                timeout = 60\<rparr>)"

section \<open>The router\<close>

text \<open>\<open>api_keys.get(k, "")\<close>.\<close>

definition key_of :: "(string \<times> string) list \<Rightarrow> string \<Rightarrow> string" where
  "key_of api_keys k = (case map_of api_keys k of None \<Rightarrow> [] | Some v \<Rightarrow> v)"

definition call_model ::
  "interp \<Rightarrow> http_client \<Rightarrow> string \<Rightarrow> (string \<times> string) list \<Rightarrow> message list
     \<Rightarrow> string option \<Rightarrow> json" where
  "call_model I client model_id api_keys messages system =
     (if model_id = ''claude'' then call_claude I client (key_of api_keys ''anthropic'') messages system
      else if model_id = ''gpt'' then call_gpt I client (key_of api_keys ''openai'') messages system
      else if model_id = ''gemini'' then call_gemini I client (key_of api_keys ''google'') messages system
      else JStr (''Unknown model: '' @ model_id))"

text \<open>A loop or comprehension whose body may raise: it stops at the first exception.\<close>

fun traverse :: "('a \<Rightarrow> 'e + 'b) \<Rightarrow> 'a list \<Rightarrow> 'e + 'b list" where
  "traverse f [] = Inr []"
| "traverse f (x # xs) =
     (case f x of
        Inl e \<Rightarrow> Inl e
      | Inr y \<Rightarrow> (case traverse f xs of Inl e \<Rightarrow> Inl e | Inr ys \<Rightarrow> Inr (y # ys)))"

section \<open>The consensus analyzer\<close>

text \<open>
  The stop words of the source. Two more are in the source's set, the en dash and the em
  dash: each is one code point above \<open>255\<close> (\<open>0x2013\<close>, \<open>0x2014\<close>), so no string of this
  theory is one of them, and a token that is one of them has length 1 and is dropped by
  the length filter in any case.
\<close>

definition stop_words :: "string set" where
  "stop_words = set
     [''the'', ''a'', ''an'', ''is'', ''are'', ''was'', ''were'', ''be'', ''been'',
      ''being'', ''have'', ''has'', ''had'', ''do'', ''does'', ''did'', ''will'',
      ''would'', ''could'', ''should'', ''may'', ''might'', ''must'', ''shall'',
      ''can'', ''of'', ''to'', ''in'', ''for'', ''on'', ''with'', ''at'', ''by'',
      ''from'', ''as'', ''into'', ''through'', ''during'', ''before'', ''after'',
      ''above'', ''below'', ''between'', ''under'', ''again'', ''further'',
      ''then'', ''once'', ''here'', ''there'', ''when'', ''where'', ''why'',
      ''how'', ''all'', ''each'', ''few'', ''more'', ''most'', ''other'', ''some'',
      ''such'', ''no'', ''nor'', ''not'', ''only'', ''own'', ''same'', ''so'',
      ''than'', ''too'', ''very'', ''just'', ''and'', ''but'', ''if'', ''or'',
      ''because'', ''until'', ''while'', ''although'', ''this'', ''that'',
      ''these'', ''those'', ''i'', ''you'', ''he'', ''she'', ''it'', ''we'', ''they'',
      ''what'', ''which'', ''who'', ''whom'', ''its'', ''his'', ''her'', ''their'',
      ''our'', ''your'', ''my'', ''-'', ''.'', '','', '':'', '';'', ''!'', ''?'']"

text \<open>
  \<open>resp.lower()\<close> and \<open>len(resp)\<close>: a value that is not a string has no \<open>lower\<close>.
\<close>

definition py_lower :: "json \<Rightarrow> py_exception + string" where
  "py_lower v = (case v of JStr s \<Rightarrow> Inr (lower s) | _ \<Rightarrow> Inl AttributeError)"

definition py_len :: "json \<Rightarrow> py_exception + nat" where
  "py_len v =
     (case v of
        JStr s \<Rightarrow> Inr (length s)
      | JArr xs \<Rightarrow> Inr (length xs)
      | JObj kvs \<Rightarrow> Inr (length kvs)
      | _ \<Rightarrow> Inl TypeError)"

text \<open>\<open>set.intersection(s, t, ...)\<close>; it is called for two sets or more.\<close>

fun set_intersection :: "'a set list \<Rightarrow> 'a set" where
  "set_intersection [] = {}"
| "set_intersection (s # ss) = fold (\<lambda>t acc. acc \<inter> t) ss s"

record analysis =
  models_compared :: "string list"
  common_themes :: "string list"
  response_lengths :: "(string \<times> nat) list"

definition response_words :: "(string \<times> json) list \<Rightarrow> py_exception + (string \<times> string set) list" where
  "response_words responses =
     traverse (\<lambda>(m, resp). and_then (py_lower resp) (\<lambda>s. Inr (m, set (split s)))) responses"

definition meaningful_common :: "(string \<times> string set) list \<Rightarrow> string set" where
  "meaningful_common rw =
     (if length rw > 1
      then {w \<in> set_intersection (map snd rw) - stop_words. length w > 3}
      else {})"

definition analyze_consensus :: "interp \<Rightarrow> (string \<times> json) list \<Rightarrow> py_exception + analysis" where
  "analyze_consensus I responses =
     and_then (response_words responses) (\<lambda>rw.
     and_then (traverse (\<lambda>(m, resp). and_then (py_len resp) (\<lambda>n. Inr (m, n))) responses) (\<lambda>lens.
       Inr \<lparr>models_compared = map fst responses,
            common_themes = take 10 (set_iter I (meaningful_common rw)),
            response_lengths = lens\<rparr>))"

section \<open>The round orchestrator\<close>

record DebateRequest =
  ctx :: string
  question :: string
  api_keys :: "(string \<times> string) list"
  models :: "string list"
  rounds :: int

text \<open>
  \<open>all_responses\<close> is a dict from participant to its list of responses, kept as its
  items in insertion order. Storing under a key that is present replaces the value in
  place (\<open>AList.update\<close>).
\<close>

type_synonym history = "(string \<times> json list) list"

definition init_responses :: "string list \<Rightarrow> history" where
  "init_responses ms = fold (\<lambda>model_id d. AList.update model_id [] d) ms []"

definition responses_at :: "history \<Rightarrow> string \<Rightarrow> py_exception + json list" where
  "responses_at all_responses k =
     (case map_of all_responses k of None \<Rightarrow> Inl (KeyError k) | Some h \<Rightarrow> Inr h)"

datatype event =
    RoundEvent (ev_round: nat) (ev_model: string) (ev_model_name: string) (ev_color: string)
      (ev_response: json) (ev_is_revision: bool)
  | ConsensusEvent (ev_summary: json) (ev_analysis: analysis)
  | DoneEvent

text \<open>
  The environment gives each HTTP call of a debate its client: the call of round \<open>r\<close>
  for the participant at position \<open>i\<close> of the list, and the summary call.
\<close>

datatype call_id = RoundCall nat nat | SummaryCall

type_synonym env = "call_id \<Rightarrow> http_client"

subsection \<open>Prompts\<close>

definition round1_system :: string where
  "round1_system =
     ''You are participating in a multi-AI debate. \<newline>'' @
     ''Give your honest, well-reasoned response to the question. \<newline>'' @
     ''Be concise but thorough. Structure your response clearly.''"

definition round1_content :: "DebateRequest \<Rightarrow> string" where
  "round1_content request =
     ''Context: '' @ ctx request @ ''\<newline>\<newline>Question: '' @ question request @
     ''\<newline>\<newline>Please provide your analysis and answer.''"

definition later_system :: string where
  "later_system =
     ''You are participating in a multi-AI debate. \<newline>'' @
     ''You've seen other AI models' responses. Now:\<newline>'' @
     ''1. Note where you agree or disagree\<newline>'' @
     ''2. Critique any flawed reasoning you see\<newline>'' @
     ''3. Revise your position if warranted, or defend it if you stand by it\<newline>'' @
     ''Be direct and substantive. Don't be sycophantic.''"

definition later_content :: "DebateRequest \<Rightarrow> string \<Rightarrow> string list \<Rightarrow> string" where
  "later_content request own others =
     ''Context: '' @ ctx request @ ''\<newline>\<newline>Question: '' @ question request @
     ''\<newline>\<newline>Your previous response: '' @ own @
     ''\<newline>\<newline>Other models' responses:\<newline>'' @ join ''\<newline>'' others @
     ''\<newline>\<newline>Please critique the other responses and revise your position if needed. '' @
     ''What do you agree on? Where do you disagree?''"

definition labelled :: "interp \<Rightarrow> string \<Rightarrow> json \<Rightarrow> string" where
  "labelled I display response = ''**'' @ display @ ''**: '' @ py_format I response"

fun other_responses ::
  "interp \<Rightarrow> history \<Rightarrow> string \<Rightarrow> string list \<Rightarrow> py_exception + string list" where
  "other_responses I all_responses model_id [] = Inr []"
| "other_responses I all_responses model_id (other_model # rest) =
     (if other_model \<noteq> model_id then
        (case responses_at all_responses other_model of
           Inl e \<Rightarrow> Inl e
         | Inr h \<Rightarrow>
             if h \<noteq> [] then
               (case MODELS_at other_model of
                  Inl e \<Rightarrow> Inl e
                | Inr cfg \<Rightarrow>
                    (case other_responses I all_responses model_id rest of
                       Inl e \<Rightarrow> Inl e
                     | Inr xs \<Rightarrow> Inr (labelled I (name cfg) (last h) # xs)))
             else other_responses I all_responses model_id rest)
      else other_responses I all_responses model_id rest)"

definition own_previous :: "interp \<Rightarrow> json list \<Rightarrow> string" where
  "own_previous I h = (if h \<noteq> [] then py_format I (last h) else ''N/A'')"

text \<open>The system instruction and the messages that one participant gets in one round.\<close>

definition build_prompt ::
  "interp \<Rightarrow> DebateRequest \<Rightarrow> history \<Rightarrow> nat \<Rightarrow> string \<Rightarrow> py_exception + (string \<times> message list)" where
  "build_prompt I request all_responses round_num model_id =
     (if round_num = 1
      then Inr (round1_system, [\<lparr>role = ''user'', content = round1_content request\<rparr>])
      else
        and_then (other_responses I all_responses model_id (models request)) (\<lambda>others.
        and_then (responses_at all_responses model_id) (\<lambda>own.
          Inr (later_system,
               [\<lparr>role = ''user'',
                 content = later_content request (own_previous I own) others\<rparr>]))))"

subsection \<open>One round\<close>

text \<open>
  \<open>asyncio.gather\<close>: the calls complete in the order of their latencies, each result is
  stored at the position of its call, and the list of results is read by position.
\<close>

definition gather :: "(nat \<Rightarrow> nat) \<Rightarrow> 'a list \<Rightarrow> 'a list" where
  "gather latency xs =
     map snd (sort_key fst (map (\<lambda>i. (i, xs ! i)) (sort_key latency [0..<length xs])))"

definition build_tasks ::
  "interp \<Rightarrow> DebateRequest \<Rightarrow> history \<Rightarrow> nat \<Rightarrow> py_exception + (string \<times> string \<times> message list) list" where
  "build_tasks I request all_responses round_num =
     traverse (\<lambda>model_id.
         and_then (build_prompt I request all_responses round_num model_id)
           (\<lambda>(system, messages). Inr (model_id, system, messages)))
       (models request)"

definition run_task ::
  "interp \<Rightarrow> env \<Rightarrow> DebateRequest \<Rightarrow> nat \<Rightarrow> nat \<times> string \<times> string \<times> message list \<Rightarrow> json" where
  "run_task I environ request round_num t =
     (case t of (i, model_id, system, messages) \<Rightarrow>
        call_model I (environ (RoundCall round_num i)) model_id (api_keys request) messages
          (Some system))"

definition round_results ::
  "interp \<Rightarrow> env \<Rightarrow> (nat \<Rightarrow> nat) \<Rightarrow> DebateRequest \<Rightarrow> nat
     \<Rightarrow> (string \<times> string \<times> message list) list \<Rightarrow> json list" where
  "round_results I environ latency request round_num tasks =
     gather latency (map (run_task I environ request round_num) (zip [0..<length tasks] tasks))"

text \<open>
  The loop that records and streams the results of a round. An exception ends the
  stream after the events already yielded.
\<close>

fun emit_round ::
  "nat \<Rightarrow> (string \<times> json) list \<Rightarrow> history \<Rightarrow> event list \<times> (py_exception + history)" where
  "emit_round round_num [] all_responses = ([], Inr all_responses)"
| "emit_round round_num ((model_id, response) # rest) all_responses =
     (case responses_at all_responses model_id of
        Inl e \<Rightarrow> ([], Inl e)
      | Inr h \<Rightarrow>
          (case MODELS_at model_id of
             Inl e \<Rightarrow> ([], Inl e)
           | Inr cfg \<Rightarrow>
               (case emit_round round_num rest (AList.update model_id (h @ [response]) all_responses) of
                  (evs, r) \<Rightarrow>
                    (RoundEvent round_num model_id (name cfg) (color cfg) response (round_num > 1)
                       # evs, r))))"

definition run_round ::
  "interp \<Rightarrow> env \<Rightarrow> (nat \<Rightarrow> nat \<Rightarrow> nat) \<Rightarrow> DebateRequest \<Rightarrow> nat \<Rightarrow> history
     \<Rightarrow> event list \<times> (py_exception + history)" where
  "run_round I environ latency request round_num all_responses =
     (case build_tasks I request all_responses round_num of
        Inl e \<Rightarrow> ([], Inl e)
      | Inr tasks \<Rightarrow>
          emit_round round_num
            (zip (map fst tasks) (round_results I environ (latency round_num) request round_num tasks))
            all_responses)"

fun run_rounds ::
  "interp \<Rightarrow> env \<Rightarrow> (nat \<Rightarrow> nat \<Rightarrow> nat) \<Rightarrow> DebateRequest \<Rightarrow> nat list \<Rightarrow> history
     \<Rightarrow> event list \<times> (py_exception + history)" where
  "run_rounds I environ latency request [] all_responses = ([], Inr all_responses)"
| "run_rounds I environ latency request (round_num # later) all_responses =
     (case run_round I environ latency request round_num all_responses of
        (evs, Inl e) \<Rightarrow> (evs, Inl e)
      | (evs, Inr st) \<Rightarrow>
          (case run_rounds I environ latency request later st of
             (evs', r) \<Rightarrow> (evs @ evs', r)))"

subsection \<open>The end of the debate\<close>

definition final_responses :: "history \<Rightarrow> py_exception + (string \<times> json) list" where
  "final_responses all_responses =
     traverse (\<lambda>(model_id, responses).
         case responses of [] \<Rightarrow> Inl IndexError | _ # _ \<Rightarrow> Inr (model_id, last responses))
       all_responses"

definition summary_prompt ::
  "interp \<Rightarrow> DebateRequest \<Rightarrow> (string \<times> json) list \<Rightarrow> py_exception + string" where
  "summary_prompt I request finals =
     and_then (traverse (\<lambda>(model_id, response).
                  and_then (MODELS_at model_id) (\<lambda>cfg.
                    Inr (labelled I (name cfg) response @ ''\<newline>\<newline>'')))
                finals) (\<lambda>parts.
       Inr (''Analyze these AI responses to the question: '' @ [CHR 0x22] @ question request
            @ [CHR 0x22] @ ''\<newline>\<newline>'' @ concat parts @
            ''\<newline>Provide a brief consensus summary:\<newline>'' @
            ''1. **Areas of Agreement**: What do the models agree on?\<newline>'' @
            ''2. **Areas of Disagreement**: Where do they differ?\<newline>'' @
            ''3. **Key Insights**: What are the most valuable takeaways?\<newline>\<newline>'' @
            ''Be concise and specific.''))"

definition summary_system :: string where
  "summary_system =
     ''You are a neutral analyst summarizing a debate between AI models. Be objective and balanced.''"

definition first_model :: "string list \<Rightarrow> py_exception + string" where
  "first_model ms = (case ms of [] \<Rightarrow> Inl IndexError | m # _ \<Rightarrow> Inr m)"

definition consensus_event :: "interp \<Rightarrow> env \<Rightarrow> DebateRequest \<Rightarrow> history \<Rightarrow> py_exception + event" where
  "consensus_event I environ request all_responses =
     and_then (final_responses all_responses) (\<lambda>finals.
     and_then (analyze_consensus I finals) (\<lambda>consensus.
     and_then (first_model (models request)) (\<lambda>summary_model.
     and_then (summary_prompt I request finals) (\<lambda>prompt.
       Inr (ConsensusEvent
              (call_model I (environ SummaryCall) summary_model (api_keys request)
                 [\<lparr>role = ''user'', content = prompt\<rparr>] (Some summary_system))
              consensus)))))"

text \<open>
  The stream: the events yielded, and the exception that ended the stream if one did.
  The serialisation of an event by \<open>json.dumps\<close> is not modelled.
\<close>

definition run_debate_stream ::
  "interp \<Rightarrow> env \<Rightarrow> (nat \<Rightarrow> nat \<Rightarrow> nat) \<Rightarrow> DebateRequest \<Rightarrow> event list \<times> py_exception option" where
  "run_debate_stream I environ latency request =
     (case run_rounds I environ latency request [1..<nat (rounds request + 1)]
             (init_responses (models request)) of
        (evs, Inl e) \<Rightarrow> (evs, Some e)
      | (evs, Inr all_responses) \<Rightarrow>
          (case consensus_event I environ request all_responses of
             Inl e \<Rightarrow> (evs, Some e)
           | Inr ev \<Rightarrow> (evs @ [ev, DoneEvent], None)))"

section \<open>Notions used in the statements\<close>

text \<open>
  An HTTP outcome is a failure for an adapter when the post raised, the status is not
  200, or decoding the body or reading the generated text out of it raised.
\<close>

definition failed :: "(json \<Rightarrow> py_exception + json) \<Rightarrow> post_outcome \<Rightarrow> bool" where
  "failed extract outcome =
     (case outcome of
        Raised e \<Rightarrow> True
      | Returned response \<Rightarrow>
          status_code response \<noteq> 200 \<or>
          (case and_then (body_json response) extract of Inl e \<Rightarrow> True | Inr v \<Rightarrow> False))"

text \<open>The keys (round, participant) of the round events of a stream, in stream order.\<close>

fun key_of_event :: "event \<Rightarrow> (nat \<times> string) list" where
  "key_of_event (RoundEvent r m n c v b) = [(r, m)]"
| "key_of_event (ConsensusEvent s a) = []"
| "key_of_event DoneEvent = []"

definition round_keys :: "event list \<Rightarrow> (nat \<times> string) list" where
  "round_keys evs = concat (map key_of_event evs)"

text \<open>Rounds \<open>1..R\<close>, and in each round the participants in their configured order.\<close>

definition grid :: "string list \<Rightarrow> nat \<Rightarrow> (nat \<times> string) list" where
  "grid ms R = concat (map (\<lambda>r. map (Pair r) ms) [1..<Suc R])"

subsection \<open>Sample interpreters, providers and requests\<close>

definition interp0 :: interp where
  "interp0 = \<lparr>str_exc = (\<lambda>e. ''error''), str_val = (\<lambda>v. ''value''),
              set_iter = sorted_list_of_set\<rparr>"

text \<open>A reply with status 200 whose body has the text \<open>v\<close> where each provider puts it.\<close>

definition reply :: "json \<Rightarrow> http_response" where
  "reply v =
     \<lparr>status_code = 200, body_text = ''{}'',
      body_json = Inr (JObj
        [(''content'', JArr [JObj [(''text'', v)]]),
         (''choices'', JArr [JObj [(''message'', JObj [(''content'', v)])]]),
         (''candidates'', JArr [JObj [(''content'', JObj [(''parts'', JArr [JObj [(''text'', v)]])])]])])\<rparr>"

definition env_reply :: "json \<Rightarrow> env" where
  "env_reply v cid req = Returned (reply v)"

definition no_latency :: "nat \<Rightarrow> nat \<Rightarrow> nat" where
  "no_latency r i = 0"

definition request0 :: DebateRequest where
  "request0 = \<lparr>ctx = ''c'', question = ''q'', api_keys = [], models = [''claude'', ''gpt''],
               rounds = 2\<rparr>"

text \<open>A request that names a participant outside the catalog, and one with GPT alone.\<close>

definition request_unknown :: DebateRequest where
  "request_unknown = \<lparr>ctx = ''c'', question = ''q'', api_keys = [], models = [''gpt'', ''mistral''],
               rounds = 1\<rparr>"
definition request_gpt :: DebateRequest where
  "request_gpt = \<lparr>ctx = ''c'', question = ''q'', api_keys = [(''openai'', ''k'')], models = [''gpt''],
               rounds = 1\<rparr>"

text \<open>The round events among the events of a stream.\<close>

fun is_round :: "event \<Rightarrow> bool" where
  "is_round (RoundEvent r m n c v b) = True"
| "is_round (ConsensusEvent s a) = False"
| "is_round DoneEvent = False"

text \<open>
  The state of the debate after \<open>k\<close> rounds, and the value that the adapter call of a
  round returns for the participant at position \<open>i\<close>, from the state the round starts in.
\<close>

definition rounds_state ::
  "interp \<Rightarrow> env \<Rightarrow> (nat \<Rightarrow> nat \<Rightarrow> nat) \<Rightarrow> DebateRequest \<Rightarrow> nat \<Rightarrow> py_exception + history" where
  "rounds_state I environ latency request k =
     snd (run_rounds I environ latency request [1..<Suc k] (init_responses (models request)))"

definition adapter_return ::
  "interp \<Rightarrow> env \<Rightarrow> DebateRequest \<Rightarrow> history \<Rightarrow> nat \<Rightarrow> nat \<Rightarrow> py_exception + json" where
  "adapter_return I environ request all_responses round_num i =
     and_then (build_prompt I request all_responses round_num (models request ! i))
       (\<lambda>(system, messages).
          Inr (call_model I (environ (RoundCall round_num i)) (models request ! i)
                 (api_keys request) messages (Some system)))"

text \<open>A request that names the same participant twice.\<close>

definition request_twice :: DebateRequest where
  "request_twice = \<lparr>ctx = ''c'', question = ''q'', api_keys = [], models = [''gpt'', ''gpt''],
               rounds = 1\<rparr>"

text \<open>
  The iteration order of a set is a legitimate one when \<open>list(s)\<close> lists every element
  of a finite set exactly once.
\<close>

definition enumerates :: "interp \<Rightarrow> bool" where
  "enumerates I = (\<forall>S. finite S \<longrightarrow> set (set_iter I S) = S \<and> distinct (set_iter I S))"

text \<open>A dict of strings, as \<open>analyze_consensus\<close> is declared to take.\<close>

definition str_dict :: "(string \<times> string) list \<Rightarrow> (string \<times> json) list" where
  "str_dict rs = map (\<lambda>(m, s). (m, JStr s)) rs"

text \<open>
  In the words of the specification: the tokens of a response, and the intersection of
  all participants' token sets minus the stop words and minus the tokens of length at
  most 3.
\<close>

definition tokens :: "string \<Rightarrow> string set" where
  "tokens s = set (split (lower s))"

definition shared_terms :: "(string \<times> string) list \<Rightarrow> string set" where
  "shared_terms rs = (\<Inter>(m, s)\<in>set rs. tokens s) - stop_words - {w. length w \<le> 3}"

text \<open>Sample responses.\<close>

definition cat_responses :: "(string \<times> string) list" where
  "cat_responses = [(''a'', ''The cat sat''), (''b'', ''A cat sat there'')]"

definition crowded :: string where
  "crowded = ''alpha bravo cable candy carry chair charm chess china civic consciousness''"

text \<open>An interpreter that iterates sets in the opposite order.\<close>

definition interp_rev :: interp where
  "interp_rev = interp0\<lparr>set_iter := (\<lambda>S. rev (sorted_list_of_set S))\<rparr>"

text \<open>An event without its list of common themes.\<close>

fun forget_themes :: "event \<Rightarrow> event" where
  "forget_themes (RoundEvent r m n c v b) = RoundEvent r m n c v b"
| "forget_themes (ConsensusEvent s a) = ConsensusEvent s (a\<lparr>common_themes := []\<rparr>)"
| "forget_themes DoneEvent = DoneEvent"

text \<open>A state of the debate after one round of two participants.\<close>

definition history1 :: history where
  "history1 = [(''claude'', [JStr ''A1'']), (''gpt'', [JStr ''B1''])]"

text \<open>More sample responses: two that share meaningful words, and two with Latin-1 letters and
  whitespace.\<close>

definition mind_responses :: "(string \<times> string) list" where
  "mind_responses =
     [(''claude'', ''Consciousness matters here''), (''gpt'', ''consciousness really MATTERS'')]"

definition cafe_responses :: "(string \<times> string) list" where
  "cafe_responses =
     [(''a'', ''CAF'' @ [CHR 0xC9, CHR 0xA0] @ ''culture wins''),
      (''b'', ''caf'' @ [CHR 0xE9] @ '' Culture'' @ [CHR 0x85] @ ''loses'')]"

text \<open>
  A provider answers with text when every outcome of a post is a failure for the adapter
  or a reply whose generated text is a string; an environment does when all its
  providers do, for every call.
\<close>

definition text_outcome :: "(json \<Rightarrow> py_exception + json) \<Rightarrow> post_outcome \<Rightarrow> bool" where
  "text_outcome extract outcome =
     (case outcome of
        Raised e \<Rightarrow> True
      | Returned response \<Rightarrow>
          status_code response \<noteq> 200 \<or>
          (case and_then (body_json response) extract of Inl e \<Rightarrow> True | Inr v \<Rightarrow> is_str v))"

definition text_env :: "env \<Rightarrow> bool" where
  "text_env environ =
     (\<forall>cid req. text_outcome claude_extract (environ cid req)
                \<and> text_outcome gpt_extract (environ cid req)
                \<and> text_outcome gemini_extract (environ cid req))"

text \<open>
  The states that a debate over the participants \<open>ms\<close> passes through while the adapters
  return strings: the keys are those of the initial state, every response is a string,
  and once a round has run (\<open>started\<close>) no history is empty.
\<close>

definition well_formed :: "string list \<Rightarrow> bool \<Rightarrow> history \<Rightarrow> bool" where
  "well_formed ms started st =
     (map fst st = map fst (init_responses ms)
      \<and> (\<forall>m h. map_of st m = Some h \<longrightarrow> list_all is_str h \<and> (started \<longrightarrow> h \<noteq> [])))"

text \<open>The crowded response with its tokens separated by no-break spaces.\<close>

definition crowded_nbsp :: string where
  "crowded_nbsp = map (\<lambda>c. if c = CHR 0x20 then CHR 0xA0 else c) crowded"

section \<open>Properties of the adapters and the router\<close>

lemma and_then_Inr [simp]: "and_then (Inr x) f = f x"
  by (simp add: and_then_def)

lemma and_then_Inl [simp]: "and_then (Inl e) f = Inl e"
  by (simp add: and_then_def)

lemma handle_is_str: "is_str (handle I label e)"
  by (simp add: handle_def is_str_def)

lemma api_error_is_str: "is_str (api_error I label response)"
  by (simp add: api_error_def is_str_def)

text \<open>A timeout gives the provider's fixed message.\<close>

lemma attempt_timeout:
  "attempt I label extract (Raised TimeoutException) =
     JStr (''Error: '' @ label @ '' API request timed out'')"
  by (simp add: attempt_def handle_def)

lemma attempt_raised:
  "e \<noteq> TimeoutException \<Longrightarrow>
   attempt I label extract (Raised e) = JStr (''Error calling '' @ label @ '': '' @ str_exc I e)"
  by (simp add: attempt_def handle_def)

lemma attempt_status:
  "status_code response \<noteq> 200 \<Longrightarrow>
   attempt I label extract (Returned response) =
     JStr (label @ '' API Error ('' @ py_format I (JInt (status_code response)) @ ''): ''
            @ py_format I (error_detail response))"
  by (simp add: attempt_def api_error_def)

text \<open>Every failure is answered by a string.\<close>

lemma attempt_failed_is_str:
  "failed extract outcome \<Longrightarrow> is_str (attempt I label extract outcome)"
  by (auto simp: failed_def attempt_def handle_is_str api_error_is_str
      split: post_outcome.splits sum.splits)

text \<open>Otherwise the adapter returns the value found in the body, whatever it is.\<close>

lemma attempt_success:
  "\<not> failed extract outcome \<Longrightarrow>
   \<exists>response. outcome = Returned response \<and>
     and_then (body_json response) extract = Inr (attempt I label extract outcome)"
  by (auto simp: failed_def attempt_def split: post_outcome.splits sum.splits)

lemma call_claude_timeout:
  "call_claude I (\<lambda>req. Raised TimeoutException) api_key messages system =
     JStr ''Error: Claude API request timed out''"
  by (simp add: call_claude_def attempt_timeout)

lemma call_gpt_timeout:
  "call_gpt I (\<lambda>req. Raised TimeoutException) api_key messages system =
     JStr ''Error: GPT API request timed out''"
  by (simp add: call_gpt_def attempt_timeout)

lemma call_gemini_timeout:
  "call_gemini I (\<lambda>req. Raised TimeoutException) api_key messages system =
     JStr ''Error: Gemini API request timed out''"
  by (simp add: call_gemini_def attempt_timeout)

lemma adapters_failed_is_str:
  "failed claude_extract outcome \<Longrightarrow> is_str (call_claude I (\<lambda>req. outcome) api_key messages system)"
  "failed gpt_extract outcome \<Longrightarrow> is_str (call_gpt I (\<lambda>req. outcome) api_key messages system)"
  "failed gemini_extract outcome \<Longrightarrow> is_str (call_gemini I (\<lambda>req. outcome) api_key messages system)"
  by (simp_all add: call_claude_def call_gpt_def call_gemini_def attempt_failed_is_str)

text \<open>
  C3. Each adapter is claimed to return a text string for every outcome of the HTTP call.
  It does for every failure (the lemmas above), but a reply with status 200 whose
  generated text is \<open>null\<close> is handed on as it is: \<open>call_gpt\<close> returns \<open>None\<close>, which
  is not a string, and so do \<open>call_claude\<close> and \<open>call_gemini\<close> on their own shapes.
\<close>

theorem adapter_returns_null:
  "call_gpt I (\<lambda>req. Returned (reply JNull)) api_key messages system = JNull
   \<and> call_claude I (\<lambda>req. Returned (reply JNull)) api_key messages system = JNull
   \<and> call_gemini I (\<lambda>req. Returned (reply JNull)) api_key messages system = JNull
   \<and> \<not> is_str JNull"
  by (simp add: call_gpt_def call_claude_def call_gemini_def attempt_def reply_def
      gpt_extract_def claude_extract_def gemini_extract_def subscript_def subscript0_def
      is_str_def)

section \<open>Properties of the rounds\<close>

text \<open>The list returned by \<open>gather\<close> does not depend on the order of completion.\<close>

lemma sort_key_fst_indexed:
  assumes "mset js = mset [0..<n]"
  shows "sort_key fst (map (\<lambda>i. (i, f i)) js) = map (\<lambda>i. (i, f i)) [0..<n]"
proof (rule properties_for_sort_key)
  show "mset (map (\<lambda>i. (i, f i)) [0..<n]) = mset (map (\<lambda>i. (i, f i)) js)"
    using assms by (metis mset_map)
next
  fix k assume "k \<in> set (map (\<lambda>i. (i, f i)) [0..<n])"
  have d: "distinct js" using assms by (metis distinct_upt mset_eq_imp_distinct_iff)
  have s: "set js = {0..<n}" using assms by (metis mset_eq_setD set_upt)
  show "filter (\<lambda>x. fst k = fst x) (map (\<lambda>i. (i, f i)) [0..<n]) =
        filter (\<lambda>x. fst k = fst x) (map (\<lambda>i. (i, f i)) js)"
  proof -
    have a: "filter (\<lambda>x. fst k = fst x) (map (\<lambda>i. (i, f i)) xs) = map (\<lambda>i. (i, f i)) (filter (\<lambda>i. fst k = i) xs)" for xs
      by (induction xs) auto
    have b: "distinct xs \<Longrightarrow> filter (\<lambda>i. c = i) xs = (if c \<in> set xs then [c] else [])" for xs :: "nat list" and c
      by (induction xs) auto
    show ?thesis using d s by (simp add: a b)
  qed
next
  show "sorted (map fst (map (\<lambda>i. (i, f i)) [0..<n]))"
    by (simp add: comp_def)
qed

lemma gather_eq: "gather latency xs = xs"
proof -
  have "mset (sort_key latency [0..<length xs]) = mset [0..<length xs]" by simp
  then have "sort_key fst (map (\<lambda>i. (i, xs ! i)) (sort_key latency [0..<length xs]))
      = map (\<lambda>i. (i, xs ! i)) [0..<length xs]"
    by (rule sort_key_fst_indexed)
  then show ?thesis
    by (simp add: gather_def comp_def map_nth)
qed

lemma traverse_Inr:
  "traverse f xs = Inr ys \<Longrightarrow> list_all2 (\<lambda>x y. f x = Inr y) xs ys"
  by (induction xs arbitrary: ys) (auto split: sum.splits)

lemma traverse_all_Inr:
  "list_all2 (\<lambda>x y. f x = Inr y) xs ys \<Longrightarrow> traverse f xs = Inr ys"
  by (induction rule: list_all2_induct) auto

lemma traverse_Inr_map: "traverse (\<lambda>x. Inr (g x)) xs = Inr (map g xs)"
  by (induction xs) auto

lemma build_tasks_fst:
  assumes "build_tasks I request st r = Inr tasks"
  shows "map fst tasks = models request"
proof -
  have "list_all2 (\<lambda>x y. and_then (build_prompt I request st r x)
           (\<lambda>(system, messages). Inr (x, system, messages)) = Inr y) (models request) tasks"
    using assms unfolding build_tasks_def by (rule traverse_Inr)
  then have "list_all2 (\<lambda>x y. fst y = x) (models request) tasks"
    by (rule list_all2_mono) (auto simp: and_then_def split: sum.splits prod.splits)
  then show ?thesis
    by (induction rule: list_all2_induct) auto
qed

lemma round_keys_simps [simp]:
  "round_keys [] = []"
  "round_keys (RoundEvent r m n c v b # evs) = (r, m) # round_keys evs"
  "round_keys (evs @ evs') = round_keys evs @ round_keys evs'"
  by (simp_all add: round_keys_def)

lemma emit_round_keys:
  "emit_round r tr st = (evs, res) \<Longrightarrow>
   prefix (round_keys evs) (map (Pair r) (map fst tr)) \<and>
   (\<forall>st'. res = Inr st' \<longrightarrow> round_keys evs = map (Pair r) (map fst tr))"
proof (induction r tr st arbitrary: evs res rule: emit_round.induct)
  case (1 r st)
  then show ?case by simp
next
  case (2 r m v rest st)
  show ?case
  proof (cases "responses_at st m")
    case (Inl e)
    with 2(2) show ?thesis by auto
  next
    case (Inr h)
    show ?thesis
    proof (cases "MODELS_at m")
      case (Inl e)
      with Inr 2(2) show ?thesis by auto
    next
      case cfg: (Inr cfg)
      obtain evs' res' where e: "emit_round r rest (AList.update m (h @ [v]) st) = (evs', res')"
        by (cases "emit_round r rest (AList.update m (h @ [v]) st)") auto
      from 2(1)[OF Inr cfg e] e Inr cfg 2(2) show ?thesis by auto
    qed
  qed
qed

lemma run_round_keys:
  assumes "run_round I environ latency request r st = (evs, res)"
  shows "prefix (round_keys evs) (map (Pair r) (models request)) \<and>
   (\<forall>st'. res = Inr st' \<longrightarrow> round_keys evs = map (Pair r) (models request))"
proof (cases "build_tasks I request st r")
  case (Inl e)
  with assms show ?thesis by (auto simp: run_round_def)
next
  case (Inr tasks)
  have l: "length (round_results I environ (latency r) request r tasks) = length tasks"
    by (simp add: round_results_def gather_eq)
  have "map fst (zip (map fst tasks) (round_results I environ (latency r) request r tasks)) = models request"
  proof -
    have "length tasks = length (models request)"
      using build_tasks_fst[OF Inr] by (metis length_map)
    with build_tasks_fst[OF Inr] l show ?thesis by simp
  qed
  with emit_round_keys[of r "zip (map fst tasks) (round_results I environ (latency r) request r tasks)" st evs res]
    assms Inr show ?thesis by (simp add: run_round_def)
qed

lemma run_rounds_keys:
  "run_rounds I environ latency request rs st = (evs, res) \<Longrightarrow>
   prefix (round_keys evs) (concat (map (\<lambda>r. map (Pair r) (models request)) rs)) \<and>
   (\<forall>st'. res = Inr st' \<longrightarrow> round_keys evs = concat (map (\<lambda>r. map (Pair r) (models request)) rs))"
proof (induction rs arbitrary: st evs res)
  case Nil
  then show ?case by simp
next
  case (Cons r rs)
  obtain evs1 res1 where r1: "run_round I environ latency request r st = (evs1, res1)"
    by (cases "run_round I environ latency request r st") auto
  note k1 = run_round_keys[OF r1]
  show ?case
  proof (cases res1)
    case (Inl e)
    with Cons.prems r1 k1 show ?thesis by (auto intro: prefix_order.trans)
  next
    case (Inr st1)
    obtain evs2 res2 where r2: "run_rounds I environ latency request rs st1 = (evs2, res2)"
      by (cases "run_rounds I environ latency request rs st1") auto
    from Cons.IH[OF r2] Cons.prems r1 r2 Inr k1 show ?thesis by auto
  qed
qed

lemma rounds_range: "[1..<nat (r + 1)] = [1..<Suc (nat r)]"
  by (cases "0 \<le> r") (simp_all add: nat_add_distrib)

lemma run_round_latency:
  "run_round I environ latency request r st = run_round I environ latency' request r st"
  by (simp add: run_round_def round_results_def gather_eq split: sum.splits)

lemma run_rounds_latency:
  "run_rounds I environ latency request rs st = run_rounds I environ latency' request rs st"
  by (induction rs arbitrary: st) (simp_all add: run_round_latency[of _ _ latency _ _ _ latency'])

section \<open>Streams that end with an exception\<close>

text \<open>
  C1. The stream is claimed to end with the consensus event and the done event for every
  request with known participants and at least one round, whatever the providers do. A
  provider that answers 200 with \<open>null\<close> as its text makes the adapter return
  \<open>None\<close>; the round event is yielded with that response, and then
  \<open>analyze_consensus\<close> raises \<open>AttributeError\<close> at \<open>resp.lower()\<close>: neither the
  consensus event nor the done event is yielded.
\<close>

theorem null_text_aborts_stream: "run_debate_stream interp0 (env_reply JNull) no_latency request_gpt =
   ([RoundEvent 1 ''gpt'' ''GPT-4o'' ''#10B981'' JNull False], Some AttributeError)"
  by code_simp


lemma init_head: "\<exists>d'. fold (\<lambda>k d. AList.update k [] d) ms ((m, []) # d) = (m, []) # d'"
  by (induction ms arbitrary: d) auto

lemma init_responses_Cons: "\<exists>d. init_responses (m # ms) = (m, []) # d"
  using init_head[of ms m "[]"] by (auto simp: init_responses_def)

text \<open>
  C10. A request with a round count below 1 and at least one participant yields no
  event at all and ends with the \<open>IndexError\<close> of \<open>responses[-1]\<close> on the empty
  history of the first participant: no round event, no consensus event, no done event.
\<close>

theorem rounds_below_one_raise:
  assumes "rounds request < 1" and "models request \<noteq> []"
  shows "run_debate_stream I environ latency request = ([], Some IndexError)"
proof -
  from assms(2) obtain m ms where "models request = m # ms" by (cases "models request") auto
  with init_responses_Cons obtain d where d: "init_responses (models request) = (m, []) # d" by metis
  have "final_responses ((m, []) # d) = Inl IndexError" by (simp add: final_responses_def)
  with d have c: "consensus_event I environ request (init_responses (models request)) = Inl IndexError"
    by (simp add: consensus_event_def and_then_def)
  have e: "[1..<nat (rounds request + 1)] = []" using assms(1) by simp
  show ?thesis unfolding run_debate_stream_def e using c by simp
qed

theorem rounds_below_one_raise_witness:
  "rounds (request0\<lparr>rounds := 0\<rparr>) < 1 \<and> models (request0\<lparr>rounds := 0\<rparr>) \<noteq> []
   \<and> run_debate_stream interp0 (env_reply (JStr ''fine'')) no_latency (request0\<lparr>rounds := 0\<rparr>)
       = ([], Some IndexError)"
  using rounds_below_one_raise[of "request0\<lparr>rounds := 0\<rparr>" interp0 "env_reply (JStr ''fine'')" no_latency]
  by (simp add: request0_def)

section \<open>The history of a participant\<close>

lemma responses_at_Inr: "responses_at st k = Inr h \<longleftrightarrow> map_of st k = Some h"
  by (simp add: responses_at_def split: option.splits)

lemma emit_round_history:
  "emit_round r tr st = (evs, Inr st') \<Longrightarrow>
   map_of st' k = (case map_of st k of None \<Rightarrow> None
                   | Some h \<Rightarrow> Some (h @ map snd (filter (\<lambda>p. fst p = k) tr)))"
proof (induction r tr st arbitrary: evs rule: emit_round.induct)
  case (1 r st)
  then show ?case by (simp split: option.splits)
next
  case (2 r m v rest st)
  from 2(2) obtain h where h: "responses_at st m = Inr h"
    by (cases "responses_at st m") auto
  from 2(2) h obtain cfg where cfg: "MODELS_at m = Inr cfg"
    by (cases "MODELS_at m") auto
  obtain evs' res' where e: "emit_round r rest (AList.update m (h @ [v]) st) = (evs', res')"
    by (cases "emit_round r rest (AList.update m (h @ [v]) st)") auto
  with 2(2) h cfg have res': "res' = Inr st'" by simp
  from 2(1)[OF h cfg e[unfolded res']]
  have "map_of st' k = (case map_of (AList.update m (h @ [v]) st) k of None \<Rightarrow> None
                   | Some h \<Rightarrow> Some (h @ map snd (filter (\<lambda>p. fst p = k) rest)))" .
  with h show ?case
    by (auto simp: update_conv' responses_at_Inr split: option.splits)
qed

lemma filter_zip_distinct:
  "distinct ms \<Longrightarrow> length vs = length ms \<Longrightarrow> i < length ms \<Longrightarrow>
   filter (\<lambda>p. fst p = ms ! i) (zip ms vs) = [(ms ! i, vs ! i)]"
proof (induction ms arbitrary: vs i)
  case Nil
  then show ?case by simp
next
  case (Cons m ms)
  then obtain v vs' where vs: "vs = v # vs'" by (cases vs) auto
  have none: "filter (\<lambda>p. fst p = m) (zip ms vs') = []"
    using Cons.prems(1) by (auto simp: filter_empty_conv dest: set_zip_leftD)
  show ?case
  proof (cases i)
    case 0
    with vs none show ?thesis by simp
  next
    case (Suc j)
    with Cons vs have "filter (\<lambda>p. fst p = ms ! j) (zip ms vs') = [(ms ! j, vs' ! j)]" by simp
    moreover have "ms ! j \<noteq> m" using Cons.prems Suc by auto
    ultimately show ?thesis using vs Suc by simp
  qed
qed

lemma build_tasks_nth:
  assumes "build_tasks I request st r = Inr tasks" and "i < length (models request)"
  shows "\<exists>system messages. build_prompt I request st r (models request ! i) = Inr (system, messages)
           \<and> tasks ! i = (models request ! i, system, messages) \<and> length tasks = length (models request)"
proof -
  have "list_all2 (\<lambda>x y. and_then (build_prompt I request st r x)
           (\<lambda>(system, messages). Inr (x, system, messages)) = Inr y) (models request) tasks"
    using assms(1) unfolding build_tasks_def by (rule traverse_Inr)
  then have l: "length (models request) = length tasks" and
    n: "and_then (build_prompt I request st r (models request ! i))
           (\<lambda>(system, messages). Inr (models request ! i, system, messages)) = Inr (tasks ! i)"
    using assms(2) by (auto simp: list_all2_conv_all_nth)
  from n show ?thesis using l
    by (auto simp: and_then_def split: sum.splits prod.splits)
qed

lemma run_round_history:
  assumes "run_round I environ latency request r st = (evs, Inr st')"
    and "distinct (models request)" and "i < length (models request)"
  shows "\<exists>h v. map_of st (models request ! i) = Some h
           \<and> adapter_return I environ request st r i = Inr v
           \<and> map_of st' (models request ! i) = Some (h @ [v])"
proof -
  from assms(1) obtain tasks where t: "build_tasks I request st r = Inr tasks"
    by (cases "build_tasks I request st r") (auto simp: run_round_def)
  let ?rs = "round_results I environ (latency r) request r tasks"
  from assms(1) t have "emit_round r (zip (map fst tasks) ?rs) st = (evs, Inr st')"
    by (simp add: run_round_def)
  then have e: "emit_round r (zip (models request) ?rs) st = (evs, Inr st')"
    by (simp only: build_tasks_fst[OF t])
  from build_tasks_nth[OF t assms(3)] obtain system messages where
    p: "build_prompt I request st r (models request ! i) = Inr (system, messages)"
    and ti: "tasks ! i = (models request ! i, system, messages)"
    and l: "length tasks = length (models request)" by blast
  have rs: "?rs = map (run_task I environ request r) (zip [0..<length tasks] tasks)"
    by (simp add: round_results_def gather_eq)
  then have lr: "length ?rs = length (models request)" using l by simp
  have ri: "?rs ! i = call_model I (environ (RoundCall r i)) (models request ! i)
                 (api_keys request) messages (Some system)"
    using rs l assms(3) ti by (simp add: run_task_def)
  have f: "filter (\<lambda>p. fst p = models request ! i) (zip (models request) ?rs)
          = [(models request ! i, ?rs ! i)]"
    using assms(2) lr assms(3) by (rule filter_zip_distinct)
  from emit_round_history[OF e, of "models request ! i"]
  have m: "map_of st' (models request ! i) =
      (case map_of st (models request ! i) of None \<Rightarrow> None | Some h \<Rightarrow> Some (h @ [?rs ! i]))"
    by (simp only: f list.map snd_conv)
  have "models request ! i \<in> set (map fst (zip (models request) ?rs))"
    using lr assms(3) by (simp add: map_fst_zip)
  have ex: "\<exists>h. map_of st (models request ! i) = Some h"
  proof (cases "map_of st (models request ! i)")
    case None
    have "emit_round r tr st = (evs0, Inr st0) \<Longrightarrow> k \<in> fst ` set tr \<Longrightarrow> map_of st0 k \<noteq> None" for tr evs0 st0 k
    proof (induction r tr st arbitrary: evs0 rule: emit_round.induct)
      case (1 r st)
      then show ?case by simp
    next
      case (2 r m v rest st)
      from 2(2) obtain h where h: "responses_at st m = Inr h"
        by (cases "responses_at st m") auto
      from 2(2) h obtain cfg where cfg: "MODELS_at m = Inr cfg"
        by (cases "MODELS_at m") auto
      obtain evs' res' where e: "emit_round r rest (AList.update m (h @ [v]) st) = (evs', res')"
        by (cases "emit_round r rest (AList.update m (h @ [v]) st)") auto
      with 2(2) h cfg have res': "res' = Inr st0" by simp
      show ?case
      proof (cases "k \<in> fst ` set rest")
        case True
        from 2(1)[OF h cfg e[unfolded res'] True] show ?thesis .
      next
        case False
        with 2(3) have "k = m" by auto
        with emit_round_history[OF e[unfolded res'], of k] show ?thesis
          by (simp add: update_conv')
      qed
    qed
    from this[OF e] lr assms(3)
    have "map_of st' (models request ! i) \<noteq> None"
      by (metis \<open>models request ! i \<in> set (map fst (zip (models request) ?rs))\<close> list.set_map)
    with m None show ?thesis by simp
  next
    case (Some h)
    then show ?thesis by blast
  qed
  then obtain h where h: "map_of st (models request ! i) = Some h" by blast
  have "adapter_return I environ request st r i = Inr (?rs ! i)"
    using p ri by (simp add: adapter_return_def)
  with h m show ?thesis by simp
qed


lemma run_rounds_append:
  "run_rounds I environ latency request (rs @ rs') st =
     (case run_rounds I environ latency request rs st of
        (evs, Inl e) \<Rightarrow> (evs, Inl e)
      | (evs, Inr st1) \<Rightarrow>
          (case run_rounds I environ latency request rs' st1 of (evs', r) \<Rightarrow> (evs @ evs', r)))"
  by (induction rs arbitrary: st) (auto split: prod.splits sum.splits)

lemma rounds_state_0: "rounds_state I environ latency request 0 = Inr (init_responses (models request))"
  by (simp add: rounds_state_def)

lemma rounds_state_Suc:
  "rounds_state I environ latency request (Suc k) =
     and_then (rounds_state I environ latency request k)
       (\<lambda>st. snd (run_round I environ latency request (Suc k) st))"
proof -
  have "[1..<Suc (Suc k)] = [1..<Suc k] @ [Suc k]" by simp
  then show ?thesis
    unfolding rounds_state_def
    by (simp only: run_rounds_append) (auto simp: and_then_def split: prod.splits sum.splits)
qed

lemma map_of_init_responses:
  "map_of (init_responses ms) m = (if m \<in> set ms then Some [] else None)"
proof -
  have "map_of (fold (\<lambda>k d. AList.update k [] d) ms d) m =
        (if m \<in> set ms then Some [] else map_of d m)" for d :: history
    by (induction ms arbitrary: d) (auto simp: update_conv')
  from this[of "[]"] show ?thesis by (simp add: init_responses_def)
qed

lemma rounds_state_history:
  assumes "distinct (models request)" and "i < length (models request)"
  shows "rounds_state I environ latency request k = Inr st \<Longrightarrow>
    \<exists>h. map_of st (models request ! i) = Some h \<and> length h = k \<and>
      (\<forall>j<k. \<exists>st_j. rounds_state I environ latency request j = Inr st_j
                \<and> map_of st_j (models request ! i) = Some (take j h)
                \<and> adapter_return I environ request st_j (Suc j) i = Inr (h ! j))"
proof (induction k arbitrary: st)
  case 0
  then show ?case using assms(2) by (auto simp: rounds_state_0 map_of_init_responses)
next
  case (Suc k)
  from Suc.prems obtain st0 where st0: "rounds_state I environ latency request k = Inr st0"
    and rr: "snd (run_round I environ latency request (Suc k) st0) = Inr st"
    by (auto simp: rounds_state_Suc and_then_def split: sum.splits)
  from Suc.IH[OF st0] obtain h where h: "map_of st0 (models request ! i) = Some h"
    and lh: "length h = k"
    and old: "\<forall>j<k. \<exists>st_j. rounds_state I environ latency request j = Inr st_j
                \<and> map_of st_j (models request ! i) = Some (take j h)
                \<and> adapter_return I environ request st_j (Suc j) i = Inr (h ! j)"
    by blast
  from rr obtain evs where "run_round I environ latency request (Suc k) st0 = (evs, Inr st)"
    by (cases "run_round I environ latency request (Suc k) st0") auto
  from run_round_history[OF this assms] h obtain v where
    v: "adapter_return I environ request st0 (Suc k) i = Inr v"
    and st: "map_of st (models request ! i) = Some (h @ [v])" by auto
  have "\<exists>st_j. rounds_state I environ latency request j = Inr st_j
                \<and> map_of st_j (models request ! i) = Some (take j (h @ [v]))
                \<and> adapter_return I environ request st_j (Suc j) i = Inr ((h @ [v]) ! j)"
    if "j < Suc k" for j
  proof (cases "j < k")
    case True
    with old lh show ?thesis by (simp add: nth_append)
  next
    case False
    with that have "j = k" by simp
    with st0 h v lh show ?thesis by (simp add: nth_append)
  qed
  with st lh show ?case by auto
qed

lemma completed_rounds_state:
  assumes "snd (run_debate_stream I environ latency request) = None"
  shows "\<exists>st. rounds_state I environ latency request (nat (rounds request)) = Inr st"
proof -
  have "[1..<nat (rounds request + 1)] = [1..<Suc (nat (rounds request))]" by (rule rounds_range)
  with assms show ?thesis
    by (auto simp: run_debate_stream_def rounds_state_def split: prod.splits sum.splits)
qed

text \<open>
  C5. Each participant's history is claimed to have exactly \<open>R\<close> entries after a
  completed debate. A participant named twice in the list gets two entries per round: with
  \<open>models = ["gpt", "gpt"]\<close> and one round the debate completes and the history of
  \<open>gpt\<close> has two entries.
\<close>

theorem history_of_repeated_participant:
  "snd (run_debate_stream interp0 (env_reply (JStr ''fine'')) no_latency request_twice) = None
   \<and> rounds_state interp0 (env_reply (JStr ''fine'')) no_latency request_twice (nat (rounds request_twice))
       = Inr [(''gpt'', [JStr ''fine'', JStr ''fine''])]
   \<and> nat (rounds request_twice) = 1"
  by code_simp

text \<open>
  C5, amended. When no participant is named twice, a completed debate leaves every
  participant with exactly \<open>R\<close> entries, and for every \<open>j < R\<close> the history after
  \<open>j\<close> rounds is the first \<open>j\<close> entries (so it only grows) and entry \<open>j\<close> is the value
  returned by the participant's adapter call of round \<open>j + 1\<close>.
\<close>

theorem history_has_one_entry_per_round:
  assumes "distinct (models request)"
    and "snd (run_debate_stream I environ latency request) = None"
    and "i < length (models request)"
  shows "\<exists>st h. rounds_state I environ latency request (nat (rounds request)) = Inr st
      \<and> map_of st (models request ! i) = Some h \<and> length h = nat (rounds request)
      \<and> (\<forall>j<nat (rounds request). \<exists>st_j. rounds_state I environ latency request j = Inr st_j
                \<and> map_of st_j (models request ! i) = Some (take j h)
                \<and> adapter_return I environ request st_j (Suc j) i = Inr (h ! j))"
proof -
  from completed_rounds_state[OF assms(2)] obtain st where
    st: "rounds_state I environ latency request (nat (rounds request)) = Inr st" by blast
  from rounds_state_history[OF assms(1) assms(3) st] st show ?thesis by blast
qed

theorem history_has_one_entry_per_round_witness:
  "distinct (models request0)
   \<and> snd (run_debate_stream interp0 (env_reply (JStr ''fine'')) no_latency request0) = None
   \<and> 0 < length (models request0)
   \<and> (\<exists>st h. rounds_state interp0 (env_reply (JStr ''fine'')) no_latency request0
                (nat (rounds request0)) = Inr st
      \<and> map_of st (models request0 ! 0) = Some h \<and> length h = nat (rounds request0)
      \<and> (\<forall>j<nat (rounds request0).
            \<exists>st_j. rounds_state interp0 (env_reply (JStr ''fine'')) no_latency request0 j = Inr st_j
                \<and> map_of st_j (models request0 ! 0) = Some (take j h)
                \<and> adapter_return interp0 (env_reply (JStr ''fine'')) request0 st_j (Suc j) 0
                    = Inr (h ! j)))"
proof -
  have a: "distinct (models request0)" by (simp add: request0_def)
  have b: "snd (run_debate_stream interp0 (env_reply (JStr ''fine'')) no_latency request0) = None"
    by code_simp
  have c: "0 < length (models request0)" by (simp add: request0_def)
  from history_has_one_entry_per_round[OF a b c] a b c show ?thesis by blast
qed

section \<open>A participant outside the catalog\<close>

lemma MODELS_at_Inl: "MODELS_at k = Inl e \<longleftrightarrow> map_of MODELS k = None \<and> e = KeyError k"
  by (auto simp: MODELS_at_def split: option.splits)

lemma call_model_unknown:
  "map_of MODELS m = None \<Longrightarrow>
   call_model I client m keys messages system = JStr (''Unknown model: '' @ m)"
  by (auto simp: call_model_def MODELS_def)

lemma emit_round_unknown:
  assumes "\<forall>m\<in>set (map fst tr). map_of st m \<noteq> None"
    and "\<exists>m\<in>set (map fst tr). map_of MODELS m = None"
  shows "\<exists>evs k. emit_round r tr st = (evs, Inl (KeyError k)) \<and> k \<in> set (map fst tr)
           \<and> map_of MODELS k = None
           \<and> (\<forall>e\<in>set evs. is_round e \<and> map_of MODELS (ev_model e) \<noteq> None)"
  using assms
proof (induction r tr st rule: emit_round.induct)
  case (1 r st)
  then show ?case by simp
next
  case (2 r m v rest st)
  from 2(2) obtain h where h: "responses_at st m = Inr h"
    by (auto simp: responses_at_def split: option.splits)
  show ?case
  proof (cases "MODELS_at m")
    case (Inl e)
    with h show ?thesis by (auto simp: MODELS_at_Inl[symmetric] simp del: MODELS_at_Inl) (auto simp: MODELS_at_Inl)
  next
    case (Inr cfg)
    then have known: "map_of MODELS m \<noteq> None" by (auto simp: MODELS_at_def split: option.splits)
    have a: "\<forall>k\<in>set (map fst rest). map_of (AList.update m (h @ [v]) st) k \<noteq> None"
      using 2(2) by (auto simp: update_conv')
    have b: "\<exists>k\<in>set (map fst rest). map_of MODELS k = None"
      using 2(3) known by auto
    from 2(1)[OF h Inr a b] obtain evs k where
      "emit_round r rest (AList.update m (h @ [v]) st) = (evs, Inl (KeyError k))"
      "k \<in> set (map fst rest)" "map_of MODELS k = None"
      "\<forall>e\<in>set evs. is_round e \<and> map_of MODELS (ev_model e) \<noteq> None" by blast
    with h Inr known show ?thesis by auto
  qed
qed

lemma build_tasks_round1:
  "build_tasks I request st 1 =
     Inr (map (\<lambda>m. (m, round1_system, [\<lparr>role = ''user'', content = round1_content request\<rparr>]))
            (models request))"
  by (simp add: build_tasks_def build_prompt_def traverse_Inr_map)

text \<open>
  C4. For a participant that is not in the catalog the router does return
  \<open>"Unknown model: <id>"\<close>. But the stream is claimed to carry that string in every
  round event of the participant and to complete; instead, with at least one round, the
  loop that yields the round events reads \<open>MODELS[model_id]["name"]\<close> and the stream
  ends with \<open>KeyError\<close>: only round events of known participants have been yielded,
  and neither the consensus event nor the done event follows.
\<close>

theorem unknown_participant_aborts_stream:
  assumes "1 \<le> rounds request" and "m \<in> set (models request)" and "map_of MODELS m = None"
  shows "call_model I client m keys messages system = JStr (''Unknown model: '' @ m)
    \<and> (\<exists>evs k. run_debate_stream I environ latency request = (evs, Some (KeyError k))
          \<and> k \<in> set (models request) \<and> map_of MODELS k = None
          \<and> (\<forall>e\<in>set evs. is_round e \<and> map_of MODELS (ev_model e) \<noteq> None))"
proof
  show "call_model I client m keys messages system = JStr (''Unknown model: '' @ m)"
    using assms(3) by (rule call_model_unknown)
  let ?tasks = "map (\<lambda>m. (m, round1_system, [\<lparr>role = ''user'', content = round1_content request\<rparr>]))
            (models request)"
  let ?rs = "round_results I environ (latency 1) request 1 ?tasks"
  let ?st = "init_responses (models request)"
  have l: "length ?rs = length (models request)"
    by (simp add: round_results_def gather_eq)
  then have f: "map fst (zip (map fst ?tasks) ?rs) = models request"
    by (simp add: comp_def map_fst_zip)
  have a: "\<forall>k\<in>set (map fst (zip (map fst ?tasks) ?rs)). map_of ?st k \<noteq> None"
    unfolding f by (simp add: map_of_init_responses)
  have b: "\<exists>k\<in>set (map fst (zip (map fst ?tasks) ?rs)). map_of MODELS k = None"
    unfolding f using assms(2,3) by blast
  from emit_round_unknown[OF a b, of 1] obtain evs k where
    e: "emit_round 1 (zip (map fst ?tasks) ?rs) ?st = (evs, Inl (KeyError k))"
    and k: "k \<in> set (models request)" "map_of MODELS k = None"
    and evs: "\<forall>e\<in>set evs. is_round e \<and> map_of MODELS (ev_model e) \<noteq> None"
    unfolding f by blast
  have rr: "run_round I environ latency request 1 ?st = (evs, Inl (KeyError k))"
    by (simp only: run_round_def build_tasks_round1 sum.case e)
  have "[1..<nat (rounds request + 1)] = 1 # [Suc 1..<nat (rounds request + 1)]"
    using assms(1) by (intro upt_conv_Cons) simp
  then have "run_rounds I environ latency request [1..<nat (rounds request + 1)] ?st
      = (evs, Inl (KeyError k))"
    using rr by simp
  then have "run_debate_stream I environ latency request = (evs, Some (KeyError k))"
    by (simp add: run_debate_stream_def)
  with k evs
  show "\<exists>evs k. run_debate_stream I environ latency request = (evs, Some (KeyError k))
          \<and> k \<in> set (models request) \<and> map_of MODELS k = None
          \<and> (\<forall>e\<in>set evs. is_round e \<and> map_of MODELS (ev_model e) \<noteq> None)" by blast
qed

theorem unknown_participant_aborts_stream_witness:
  "1 \<le> rounds request_unknown \<and> ''mistral'' \<in> set (models request_unknown)
   \<and> map_of MODELS ''mistral'' = None
   \<and> call_model interp0 (env_reply (JStr ''fine'') SummaryCall) ''mistral'' [] [] None
        = JStr (''Unknown model: '' @ ''mistral'')
   \<and> (\<exists>evs k. run_debate_stream interp0 (env_reply (JStr ''fine'')) no_latency request_unknown
                 = (evs, Some (KeyError k))
          \<and> k \<in> set (models request_unknown) \<and> map_of MODELS k = None
          \<and> (\<forall>e\<in>set evs. is_round e \<and> map_of MODELS (ev_model e) \<noteq> None))"
proof -
  have a: "1 \<le> rounds request_unknown" by (simp add: request_unknown_def)
  have b: "''mistral'' \<in> set (models request_unknown)" by (simp add: request_unknown_def)
  have c: "map_of MODELS ''mistral'' = None" by (simp add: MODELS_def)
  from unknown_participant_aborts_stream[OF a b c] a b c show ?thesis by blast
qed

lemma unknown_participant_example:
  "run_debate_stream interp0 (env_reply (JStr ''fine'')) no_latency request_unknown =
   ([RoundEvent 1 ''gpt'' ''GPT-4o'' ''#10B981'' (JStr ''fine'') False], Some (KeyError ''mistral''))"
  by code_simp

section \<open>The consensus analysis\<close>

lemma enumerates_interp0: "enumerates interp0"
  by (simp add: enumerates_def interp0_def)

lemma response_words_str_dict:
  "response_words (str_dict rs) = Inr (map (\<lambda>(m, s). (m, tokens s)) rs)"
  unfolding response_words_def str_dict_def
  by (induction rs) (auto simp: py_lower_def tokens_def)

lemma lengths_str_dict:
  "traverse (\<lambda>(m, resp). and_then (py_len resp) (\<lambda>n. Inr (m, n))) (str_dict rs)
     = Inr (map (\<lambda>(m, s). (m, length s)) rs)"
  unfolding str_dict_def
  by (induction rs) (auto simp: py_len_def)

lemma fold_inter: "fold (\<lambda>t acc. acc \<inter> t) ss s = s \<inter> \<Inter>(set ss)"
  by (induction ss arbitrary: s) auto

lemma set_intersection_Inter: "ss \<noteq> [] \<Longrightarrow> set_intersection ss = \<Inter>(set ss)"
  by (cases ss) (auto simp: fold_inter)

lemma meaningful_common_shared:
  "meaningful_common (map (\<lambda>(m, s). (m, tokens s)) rs)
     = (if 1 < length rs then shared_terms rs else {})"
proof (cases "1 < length rs")
  case True
  then have ne: "map snd (map (\<lambda>(m, s). (m, tokens s)) rs) \<noteq> []" by auto
  have "\<Inter>(set (map snd (map (\<lambda>(m, s). (m, tokens s)) rs))) = (\<Inter>(m, s)\<in>set rs. tokens s)"
    by (auto simp: case_prod_beta)
  with True set_intersection_Inter[OF ne] show ?thesis
    by (auto simp: meaningful_common_def shared_terms_def)
next
  case False
  then show ?thesis by (simp add: meaningful_common_def)
qed

lemma finite_tokens: "finite (tokens s)"
  by (simp add: tokens_def)

lemma finite_shared_terms: "rs \<noteq> [] \<Longrightarrow> finite (shared_terms rs)"
proof -
  assume "rs \<noteq> []"
  then obtain m s where ms: "(m, s) \<in> set rs" by (cases rs) auto
  then have "shared_terms rs \<subseteq> tokens s" by (auto simp: shared_terms_def)
  then show ?thesis using finite_tokens by (rule finite_subset)
qed

lemma analyze_consensus_str_dict:
  "analyze_consensus I (str_dict rs) =
     Inr \<lparr>models_compared = map fst rs,
          common_themes = take 10 (set_iter I (if 1 < length rs then shared_terms rs else {})),
          response_lengths = map (\<lambda>(m, s). (m, length s)) rs\<rparr>"
proof -
  have "map fst (str_dict rs) = map fst rs"
    by (simp add: str_dict_def comp_def case_prod_beta)
  then show ?thesis
    by (simp add: analyze_consensus_def response_words_str_dict lengths_str_dict
        meaningful_common_shared)
qed

text \<open>
  C6. On a dict of strings \<open>analyze_consensus\<close> returns; \<open>models_compared\<close> is the
  list of participants and \<open>response_lengths\<close> gives each participant the length of its
  response. \<open>common_themes\<close> has at most 10 elements, none twice. With at least 2
  participants they are drawn from the intersection of the lower-cased, whitespace-split
  token sets minus the stop words and the tokens of length at most 3: as many as there
  are, up to 10, and all of them when there are at most 10. With fewer than 2
  participants \<open>common_themes\<close> is empty.
\<close>

theorem analyze_consensus_themes:
  assumes "enumerates I"
  shows "\<exists>a. analyze_consensus I (str_dict rs) = Inr a
     \<and> models_compared a = map fst rs
     \<and> response_lengths a = map (\<lambda>(m, s). (m, length s)) rs
     \<and> length (common_themes a) \<le> 10 \<and> distinct (common_themes a)
     \<and> (2 \<le> length rs \<longrightarrow>
          set (common_themes a) \<subseteq> shared_terms rs
          \<and> length (common_themes a) = min 10 (card (shared_terms rs))
          \<and> (card (shared_terms rs) \<le> 10 \<longrightarrow> set (common_themes a) = shared_terms rs))
     \<and> (length rs < 2 \<longrightarrow> common_themes a = [])"
proof -
  define S where "S = (if 1 < length rs then shared_terms rs else {})"
  define xs where "xs = set_iter I S"
  have fin: "finite S"
    unfolding S_def using finite_shared_terms[of rs] by (cases "rs = []") auto
  from assms fin have s: "set xs = S" and d: "distinct xs"
    unfolding enumerates_def xs_def by blast+
  have l: "length xs = card S" using distinct_card[OF d] s by simp
  have 1: "length (take 10 xs) \<le> 10" by simp
  have 2: "distinct (take 10 xs)" using d by (rule distinct_take)
  have 3: "set (take 10 xs) \<subseteq> S" using s set_take_subset[of 10 xs] by simp
  have 4: "length (take 10 xs) = min 10 (card S)" using l by simp
  have 5: "card S \<le> 10 \<Longrightarrow> set (take 10 xs) = S" using l s by simp
  have two: "2 \<le> length rs \<Longrightarrow> S = shared_terms rs" by (simp add: S_def)
  have 6: "length rs < 2 \<Longrightarrow> take 10 xs = []"
  proof -
    assume "length rs < 2"
    then have "S = {}" by (simp add: S_def)
    with s have "xs = []" by simp
    then show ?thesis by simp
  qed
  define a where "a = \<lparr>models_compared = map fst rs, common_themes = take 10 xs,
            response_lengths = map (\<lambda>(m, s). (m, length s)) rs\<rparr>"
  have an: "analyze_consensus I (str_dict rs) = Inr a"
    unfolding a_def xs_def S_def by (rule analyze_consensus_str_dict)
  have c: "common_themes a = take 10 xs" by (simp add: a_def)
  show ?thesis
  proof (intro exI conjI impI)
    show "analyze_consensus I (str_dict rs) = Inr a" by (rule an)
    show "models_compared a = map fst rs" by (simp add: a_def)
    show "response_lengths a = map (\<lambda>(m, s). (m, length s)) rs" by (simp add: a_def)
    show "length (common_themes a) \<le> 10" unfolding c by (rule 1)
    show "distinct (common_themes a)" unfolding c by (rule 2)
    show "set (common_themes a) \<subseteq> shared_terms rs" if "2 \<le> length rs"
      using 3 two[OF that] unfolding c by simp
    show "length (common_themes a) = min 10 (card (shared_terms rs))" if "2 \<le> length rs"
      using 4 two[OF that] unfolding c by simp
    show "set (common_themes a) = shared_terms rs"
      if "2 \<le> length rs" "card (shared_terms rs) \<le> 10"
      using 5 two[OF that(1)] that(2) unfolding c by simp
    show "common_themes a = []" if "length rs < 2"
      unfolding c using 6[OF that] .
  qed
qed

theorem analyze_consensus_themes_witness:
  "enumerates interp0 \<and>
   (\<exists>a. analyze_consensus interp0 (str_dict mind_responses) = Inr a
     \<and> models_compared a = map fst mind_responses
     \<and> response_lengths a = map (\<lambda>(m, s). (m, length s)) mind_responses
     \<and> length (common_themes a) \<le> 10 \<and> distinct (common_themes a)
     \<and> (2 \<le> length mind_responses \<longrightarrow>
          set (common_themes a) \<subseteq> shared_terms mind_responses
          \<and> length (common_themes a) = min 10 (card (shared_terms mind_responses))
          \<and> (card (shared_terms mind_responses) \<le> 10 \<longrightarrow>
               set (common_themes a) = shared_terms mind_responses))
     \<and> (length mind_responses < 2 \<longrightarrow> common_themes a = []))
   \<and> analyze_consensus interp0 (str_dict mind_responses) =
       Inr \<lparr>models_compared = [''claude'', ''gpt''],
            common_themes = [''consciousness'', ''matters''],
            response_lengths = [(''claude'', 26), (''gpt'', 28)]\<rparr>"
proof -
  have e: "analyze_consensus interp0 (str_dict mind_responses) =
       Inr \<lparr>models_compared = [''claude'', ''gpt''],
            common_themes = [''consciousness'', ''matters''],
            response_lengths = [(''claude'', 26), (''gpt'', 28)]\<rparr>"
    by code_simp
  from analyze_consensus_themes[OF enumerates_interp0, of mind_responses] enumerates_interp0 e
  show ?thesis by (intro conjI)
qed

text \<open>
  C8. Two responses that both hold the token \<open>consciousness\<close> are claimed to have it in
  \<open>common_themes\<close>. The list is cut to 10 elements: when the responses share 11
  meaningful tokens and the set happens to be iterated in alphabetical order, the 10 kept
  are the others.
\<close>

theorem crowded_themes_drop_consciousness:
  "''consciousness'' \<in> set (split (lower crowded))
   \<and> analyze_consensus interp0 [(''claude'', JStr crowded), (''gpt'', JStr crowded)] =
       Inr \<lparr>models_compared = [''claude'', ''gpt''],
            common_themes = [''alpha'', ''bravo'', ''cable'', ''candy'', ''carry'', ''chair'',
                             ''charm'', ''chess'', ''china'', ''civic''],
            response_lengths = [(''claude'', 73), (''gpt'', 73)]\<rparr>"
  by code_simp


text \<open>
  C8, amended. When the two responses share at most 10 meaningful tokens, so that the cut
  to 10 drops nothing, \<open>consciousness\<close> is in \<open>common_themes\<close>.
\<close>

theorem shared_token_is_a_theme:
  assumes "enumerates I"
    and "''consciousness'' \<in> set (split (lower r1))"
    and "''consciousness'' \<in> set (split (lower r2))"
    and "card (shared_terms [(m1, r1), (m2, r2)]) \<le> 10"
  shows "\<exists>a. analyze_consensus I [(m1, JStr r1), (m2, JStr r2)] = Inr a
            \<and> ''consciousness'' \<in> set (common_themes a)"
proof -
  let ?rs = "[(m1, r1), (m2, r2)]"
  have sw: "''consciousness'' \<notin> stop_words" by (simp add: stop_words_def)
  have in_s: "''consciousness'' \<in> shared_terms ?rs"
    using assms(2,3) sw by (simp add: shared_terms_def tokens_def)
  have fin: "finite (shared_terms ?rs)" by (rule finite_shared_terms) simp
  with assms(1) have s: "set (set_iter I (shared_terms ?rs)) = shared_terms ?rs"
    and d: "distinct (set_iter I (shared_terms ?rs))" by (auto simp: enumerates_def)
  then have "length (set_iter I (shared_terms ?rs)) \<le> 10"
    using assms(4) by (metis distinct_card)
  then have "take 10 (set_iter I (shared_terms ?rs)) = set_iter I (shared_terms ?rs)" by simp
  with s in_s have "''consciousness'' \<in> set (take 10 (set_iter I (shared_terms ?rs)))" by simp
  moreover have "str_dict ?rs = [(m1, JStr r1), (m2, JStr r2)]" by (simp add: str_dict_def)
  ultimately show ?thesis
    using analyze_consensus_str_dict[of I ?rs] by simp
qed


theorem shared_token_is_a_theme_witness:
  "enumerates interp0
   \<and> ''consciousness'' \<in> set (split (lower ''Consciousness matters''))
   \<and> ''consciousness'' \<in> set (split (lower ''consciousness is hard''))
   \<and> card (shared_terms [(''claude'', ''Consciousness matters''), (''gpt'', ''consciousness is hard'')]) \<le> 10
   \<and> (\<exists>a. analyze_consensus interp0
             [(''claude'', JStr ''Consciousness matters''), (''gpt'', JStr ''consciousness is hard'')] = Inr a
            \<and> ''consciousness'' \<in> set (common_themes a))"
proof -
  have a: "''consciousness'' \<in> set (split (lower ''Consciousness matters''))" by code_simp
  have b: "''consciousness'' \<in> set (split (lower ''consciousness is hard''))" by code_simp
  have "card (meaningful_common (map (\<lambda>(m, s). (m, tokens s))
          [(''claude'', ''Consciousness matters''), (''gpt'', ''consciousness is hard'')])) \<le> 10"
    by code_simp
  then have c: "card (shared_terms [(''claude'', ''Consciousness matters''), (''gpt'', ''consciousness is hard'')]) \<le> 10"
    by (simp only: meaningful_common_shared) simp
  from shared_token_is_a_theme[OF enumerates_interp0 a b c] enumerates_interp0 a b c
  show ?thesis by blast
qed

section \<open>Two runs of the same request\<close>

lemma enumerates_interp_rev: "enumerates interp_rev"
  by (simp add: enumerates_def interp_rev_def interp0_def)

lemma py_format_set_iter [simp]: "py_format (I\<lparr>set_iter := f\<rparr>) v = py_format I v"
  by (simp add: py_format_def split: json.splits)

lemma handle_set_iter [simp]: "handle (I\<lparr>set_iter := f\<rparr>) label e = handle I label e"
  by (simp add: handle_def)

lemma api_error_set_iter [simp]:
  "api_error (I\<lparr>set_iter := f\<rparr>) label response = api_error I label response"
  by (simp add: api_error_def)

lemma attempt_set_iter [simp]:
  "attempt (I\<lparr>set_iter := f\<rparr>) label extract outcome = attempt I label extract outcome"
  by (simp add: attempt_def split: post_outcome.splits sum.splits)

lemma call_model_set_iter [simp]:
  "call_model (I\<lparr>set_iter := f\<rparr>) client m keys messages system
     = call_model I client m keys messages system"
  by (simp add: call_model_def call_claude_def call_gpt_def call_gemini_def)

lemma labelled_set_iter [simp]: "labelled (I\<lparr>set_iter := f\<rparr>) d v = labelled I d v"
  by (simp add: labelled_def)

lemma other_responses_set_iter [simp]:
  "other_responses (I\<lparr>set_iter := f\<rparr>) st m ms = other_responses I st m ms"
  by (induction ms) (simp_all split: sum.splits)

lemma own_previous_set_iter [simp]: "own_previous (I\<lparr>set_iter := f\<rparr>) h = own_previous I h"
  by (simp add: own_previous_def)

lemma build_prompt_set_iter [simp]:
  "build_prompt (I\<lparr>set_iter := f\<rparr>) request st r m = build_prompt I request st r m"
  by (simp add: build_prompt_def)

lemma run_task_set_iter [simp]:
  "run_task (I\<lparr>set_iter := f\<rparr>) environ request r = run_task I environ request r"
  by (rule ext) (simp add: run_task_def split: prod.splits)

lemma round_results_set_iter [simp]:
  "round_results (I\<lparr>set_iter := f\<rparr>) environ latency request r tasks
     = round_results I environ latency request r tasks"
  by (simp add: round_results_def)

lemma build_tasks_set_iter [simp]:
  "build_tasks (I\<lparr>set_iter := f\<rparr>) request st r = build_tasks I request st r"
  by (simp add: build_tasks_def)

lemma run_round_set_iter [simp]:
  "run_round (I\<lparr>set_iter := f\<rparr>) environ latency request r st
     = run_round I environ latency request r st"
  by (simp add: run_round_def split: sum.splits)

lemma run_rounds_set_iter [simp]:
  "run_rounds (I\<lparr>set_iter := f\<rparr>) environ latency request rs st
     = run_rounds I environ latency request rs st"
  by (induction rs arbitrary: st) simp_all

lemma summary_prompt_set_iter [simp]:
  "summary_prompt (I\<lparr>set_iter := f\<rparr>) request finals = summary_prompt I request finals"
  by (simp add: summary_prompt_def)

lemma analyze_consensus_set_iter:
  "analyze_consensus (I\<lparr>set_iter := f\<rparr>) responses =
     (case analyze_consensus I responses of
        Inl e \<Rightarrow> Inl e
      | Inr a \<Rightarrow> Inr (a\<lparr>common_themes :=
                         take 10 (f (meaningful_common (projr (response_words responses))))\<rparr>))"
  by (auto simp: analyze_consensus_def and_then_def split: sum.splits)

lemma consensus_event_set_iter:
  "(case consensus_event (I\<lparr>set_iter := f\<rparr>) environ request st of
      Inl e \<Rightarrow> Inl e | Inr ev \<Rightarrow> Inr (forget_themes ev))
   = (case consensus_event I environ request st of
      Inl e \<Rightarrow> Inl e | Inr ev \<Rightarrow> Inr (forget_themes ev))"
  by (auto simp: consensus_event_def and_then_def analyze_consensus_set_iter split: sum.splits)

lemma consensus_event_set_iter_cases:
  "(\<exists>e. consensus_event (I\<lparr>set_iter := f\<rparr>) environ request st = Inl e
        \<and> consensus_event I environ request st = Inl e)
   \<or> (\<exists>ev ev'. consensus_event (I\<lparr>set_iter := f\<rparr>) environ request st = Inr ev'
        \<and> consensus_event I environ request st = Inr ev
        \<and> forget_themes ev' = forget_themes ev)"
  using consensus_event_set_iter[where I = I and f = f and environ = environ and request = request
      and st = st]
  by (cases "consensus_event (I\<lparr>set_iter := f\<rparr>) environ request st";
      cases "consensus_event I environ request st") auto

text \<open>
  C9. Two runs of the same request with the same provider replies are claimed to yield
  identical event sequences, \<open>common_themes\<close> included. The list is
  \<open>list(meaningful_common)[:10]\<close>, in the iteration order of a set of strings, which is
  not fixed from one interpreter process to the next: under two legitimate orders the
  streams differ.
\<close>

theorem two_runs_differ_by_set_order:
  "enumerates interp0 \<and> enumerates interp_rev
   \<and> str_exc interp_rev = str_exc interp0 \<and> str_val interp_rev = str_val interp0
   \<and> run_debate_stream interp0 (env_reply (JStr ''consciousness matters here'')) no_latency request0
       \<noteq> run_debate_stream interp_rev (env_reply (JStr ''consciousness matters here'')) no_latency request0"
proof -
  have "run_debate_stream interp0 (env_reply (JStr ''consciousness matters here'')) no_latency request0
       \<noteq> run_debate_stream interp_rev (env_reply (JStr ''consciousness matters here'')) no_latency request0"
    by code_simp
  then show ?thesis
    using enumerates_interp0 enumerates_interp_rev by (simp add: interp_rev_def)
qed

text \<open>
  C9, amended. With the same provider replies and the same iteration order of sets, two
  runs of a request yield the same stream, whatever the latencies of the calls. Under a
  different iteration order the stream still ends the same way and holds the same events
  but for the list \<open>common_themes\<close>.
\<close>

theorem two_runs_agree:
  "run_debate_stream I environ latency request = run_debate_stream I environ latency' request
   \<and> snd (run_debate_stream (I\<lparr>set_iter := f\<rparr>) environ latency' request)
       = snd (run_debate_stream I environ latency request)
   \<and> map forget_themes (fst (run_debate_stream (I\<lparr>set_iter := f\<rparr>) environ latency' request))
       = map forget_themes (fst (run_debate_stream I environ latency request))"
proof (intro conjI)
  show l: "run_debate_stream I environ latency request = run_debate_stream I environ latency' request"
    by (simp add: run_debate_stream_def run_rounds_latency[of _ _ latency _ _ _ latency'])
  have "snd (run_debate_stream (I\<lparr>set_iter := f\<rparr>) environ latency' request)
       = snd (run_debate_stream I environ latency' request)
     \<and> map forget_themes (fst (run_debate_stream (I\<lparr>set_iter := f\<rparr>) environ latency' request))
       = map forget_themes (fst (run_debate_stream I environ latency' request))"
  proof -
    obtain evs res where r: "run_rounds I environ latency' request [1..<nat (rounds request + 1)]
             (init_responses (models request)) = (evs, res)"
      by (cases "run_rounds I environ latency' request [1..<nat (rounds request + 1)]
             (init_responses (models request))") auto
    show ?thesis
    proof (cases res)
      case (Inl e)
      with r show ?thesis by (simp add: run_debate_stream_def)
    next
      case (Inr st)
      from consensus_event_set_iter_cases[of f I environ request st] r Inr
      show ?thesis by (auto simp: run_debate_stream_def)
    qed
  qed
  then show "snd (run_debate_stream (I\<lparr>set_iter := f\<rparr>) environ latency' request)
       = snd (run_debate_stream I environ latency request)"
    and "map forget_themes (fst (run_debate_stream (I\<lparr>set_iter := f\<rparr>) environ latency' request))
       = map forget_themes (fst (run_debate_stream I environ latency request))"
    unfolding l by blast+
qed

section \<open>The prompts\<close>

lemma py_format_JStr: "py_format I (JStr s) = s"
  by (simp add: py_format_def)

lemma sublist_inside: "sublist x zs \<Longrightarrow> sublist x (ps @ zs @ ss)"
proof -
  assume "sublist x zs"
  then obtain a b where "zs = a @ x @ b" by (auto simp: sublist_def)
  then have "ps @ zs @ ss = (ps @ a) @ x @ (b @ ss)" by simp
  then show ?thesis unfolding sublist_def by blast
qed

lemma sublist_join: "x \<in> set xs \<Longrightarrow> sublist x (join sep xs)"
proof (induction sep xs rule: join.induct)
  case (1 sep)
  then show ?case by simp
next
  case (2 sep y)
  then show ?case by simp
next
  case (3 sep y z zs)
  show ?case
  proof (cases "x = y")
    case True
    then show ?thesis by simp
  next
    case False
    with 3 have "sublist x (join sep (z # zs))" by simp
    from sublist_inside[OF this, of "y @ sep" "[]"] show ?thesis by simp
  qed
qed

lemma other_responses_ok:
  assumes "\<forall>other\<in>set ms. \<exists>h. map_of st other = Some h"
    and "\<forall>other\<in>set ms. map_of MODELS other \<noteq> None"
  shows "\<exists>xs. other_responses I st model_id ms = Inr xs \<and>
     (\<forall>other\<in>set ms. other \<noteq> model_id \<longrightarrow>
        (\<forall>h. map_of st other = Some h \<and> h \<noteq> [] \<longrightarrow>
           (\<exists>cfg. map_of MODELS other = Some cfg \<and> labelled I (name cfg) (last h) \<in> set xs)))"
  using assms
proof (induction ms)
  case Nil
  then show ?case by simp
next
  case (Cons m ms)
  from Cons obtain xs where xs: "other_responses I st model_id ms = Inr xs"
    and rest: "\<forall>other\<in>set ms. other \<noteq> model_id \<longrightarrow>
        (\<forall>h. map_of st other = Some h \<and> h \<noteq> [] \<longrightarrow>
           (\<exists>cfg. map_of MODELS other = Some cfg \<and> labelled I (name cfg) (last h) \<in> set xs))"
    by auto
  from Cons.prems obtain h where h: "map_of st m = Some h" by auto
  from Cons.prems obtain cfg where cfg: "map_of MODELS m = Some cfg" by auto
  show ?case
  proof (cases "m \<noteq> model_id \<and> h \<noteq> []")
    case True
    then have "other_responses I st model_id (m # ms) = Inr (labelled I (name cfg) (last h) # xs)"
      using h cfg xs by (simp add: responses_at_def MODELS_at_def)
    with rest h cfg True show ?thesis by auto
  next
    case False
    then have "other_responses I st model_id (m # ms) = Inr xs"
      using h cfg xs by (auto simp: responses_at_def MODELS_at_def)
    with rest h False show ?thesis by auto
  qed
qed

text \<open>
  C7. In round 1 the user turn is the fixed frame around the request's context and
  question, whatever the state of the debate holds: nothing of any participant is in it.
  In a round \<open>k > 1\<close>, for a participant with a history and known participants, the
  prompt is built and its user turn contains the context and the question, the
  participant's own last response (or \<open>N/A\<close> when its history is empty) after
  \<open>Your previous response:\<close>, and, for every other participant with a response, that
  last response after the participant's display name in the form \<open>**name**: \<close>. The
  text of a string response is the string itself.
\<close>

theorem prompts_embed_previous_responses:
  assumes "1 < round_num"
    and "map_of st model_id = Some own"
    and "set (models request) \<subseteq> dom (map_of st)"
    and "set (models request) \<subseteq> dom (map_of MODELS)"
  shows "build_prompt I request st' 1 model_id =
      Inr (round1_system,
           [\<lparr>role = ''user'',
             content = ''Context: '' @ ctx request @ ''\<newline>\<newline>Question: '' @ question request @
                       ''\<newline>\<newline>Please provide your analysis and answer.''\<rparr>])
    \<and> (\<exists>c. build_prompt I request st round_num model_id = Inr (later_system, [\<lparr>role = ''user'', content = c\<rparr>])
          \<and> sublist (''Context: '' @ ctx request @ ''\<newline>\<newline>Question: '' @ question request) c
          \<and> sublist (''Your previous response: '' @
                       (if own = [] then ''N/A'' else py_format I (last own))) c
          \<and> (\<forall>other\<in>set (models request). other \<noteq> model_id \<longrightarrow>
                (\<forall>h. map_of st other = Some h \<and> h \<noteq> [] \<longrightarrow>
                   (\<exists>cfg. map_of MODELS other = Some cfg
                      \<and> sublist (''**'' @ name cfg @ ''**: '' @ py_format I (last h)) c))))
    \<and> py_format I (JStr s) = s"
proof (intro conjI)
  show "build_prompt I request st' 1 model_id =
      Inr (round1_system,
           [\<lparr>role = ''user'',
             content = ''Context: '' @ ctx request @ ''\<newline>\<newline>Question: '' @ question request @
                       ''\<newline>\<newline>Please provide your analysis and answer.''\<rparr>])"
    by (simp add: build_prompt_def round1_content_def)
  show "py_format I (JStr s) = s" by (rule py_format_JStr)
  from assms(3) have a3: "\<forall>other\<in>set (models request). \<exists>h. map_of st other = Some h"
    by blast
  from assms(4) have a4: "\<forall>other\<in>set (models request). map_of MODELS other \<noteq> None"
    by blast
  from other_responses_ok[OF a3 a4, of I model_id] obtain xs where
    xs: "other_responses I st model_id (models request) = Inr xs"
    and each: "\<forall>other\<in>set (models request). other \<noteq> model_id \<longrightarrow>
        (\<forall>h. map_of st other = Some h \<and> h \<noteq> [] \<longrightarrow>
           (\<exists>cfg. map_of MODELS other = Some cfg \<and> labelled I (name cfg) (last h) \<in> set xs))"
    by blast
  define c where "c = later_content request (own_previous I own) xs"
  have b: "build_prompt I request st round_num model_id = Inr (later_system, [\<lparr>role = ''user'', content = c\<rparr>])"
    using assms(1,2) xs by (simp add: build_prompt_def responses_at_def c_def)
  define pre where "pre = ''Context: '' @ ctx request @ ''\<newline>\<newline>Question: '' @ question request"
  define mid where "mid = ''Your previous response: '' @ own_previous I own"
  define tail where "tail = ''\<newline>\<newline>Please critique the other responses and revise your position if needed. '' @
     ''What do you agree on? Where do you disagree?''"
  have c_eq: "c = pre @ ''\<newline>\<newline>'' @ mid @ ''\<newline>\<newline>Other models' responses:\<newline>'' @ join ''\<newline>'' xs @ tail"
    by (simp add: c_def later_content_def pre_def mid_def tail_def)
  have s1: "sublist pre c" unfolding c_eq by (rule sublist_append_rightI)
  have "sublist mid mid" by simp
  from sublist_inside[OF this, of "pre @ ''\<newline>\<newline>''"
      "''\<newline>\<newline>Other models' responses:\<newline>'' @ join ''\<newline>'' xs @ tail"]
  have s2: "sublist mid c" unfolding c_eq by simp
  have s3: "sublist x c" if "x \<in> set xs" for x
  proof -
    have "sublist x (join ''\<newline>'' xs)" using that by (rule sublist_join)
    from sublist_inside[OF this,
        of "pre @ ''\<newline>\<newline>'' @ mid @ ''\<newline>\<newline>Other models' responses:\<newline>''" tail]
    show ?thesis unfolding c_eq by simp
  qed
  have own_eq: "own_previous I own = (if own = [] then ''N/A'' else py_format I (last own))"
    by (simp add: own_previous_def)
  show "\<exists>c. build_prompt I request st round_num model_id = Inr (later_system, [\<lparr>role = ''user'', content = c\<rparr>])
          \<and> sublist (''Context: '' @ ctx request @ ''\<newline>\<newline>Question: '' @ question request) c
          \<and> sublist (''Your previous response: '' @
                       (if own = [] then ''N/A'' else py_format I (last own))) c
          \<and> (\<forall>other\<in>set (models request). other \<noteq> model_id \<longrightarrow>
                (\<forall>h. map_of st other = Some h \<and> h \<noteq> [] \<longrightarrow>
                   (\<exists>cfg. map_of MODELS other = Some cfg
                      \<and> sublist (''**'' @ name cfg @ ''**: '' @ py_format I (last h)) c)))"
  proof (intro exI[of _ c] conjI)
    show "build_prompt I request st round_num model_id = Inr (later_system, [\<lparr>role = ''user'', content = c\<rparr>])"
      by (rule b)
    show "sublist (''Context: '' @ ctx request @ ''\<newline>\<newline>Question: '' @ question request) c"
      using s1 by (simp only: pre_def)
    show "sublist (''Your previous response: '' @
                       (if own = [] then ''N/A'' else py_format I (last own))) c"
      using s2 by (simp only: mid_def own_eq)
    show "\<forall>other\<in>set (models request). other \<noteq> model_id \<longrightarrow>
                (\<forall>h. map_of st other = Some h \<and> h \<noteq> [] \<longrightarrow>
                   (\<exists>cfg. map_of MODELS other = Some cfg
                      \<and> sublist (''**'' @ name cfg @ ''**: '' @ py_format I (last h)) c))"
    proof (intro ballI impI allI)
      fix other h
      assume o: "other \<in> set (models request)" "other \<noteq> model_id"
        and h: "map_of st other = Some h \<and> h \<noteq> []"
      with each obtain cfg where cfg: "map_of MODELS other = Some cfg"
        and l: "labelled I (name cfg) (last h) \<in> set xs" by blast
      from s3[OF l] have "sublist (''**'' @ name cfg @ ''**: '' @ py_format I (last h)) c"
        by (simp only: labelled_def)
      with cfg show "\<exists>cfg. map_of MODELS other = Some cfg
                      \<and> sublist (''**'' @ name cfg @ ''**: '' @ py_format I (last h)) c" by blast
    qed
  qed
qed

theorem prompts_embed_previous_responses_witness:
  "1 < (2::nat) \<and> map_of history1 ''claude'' = Some [JStr ''A1'']
   \<and> set (models request0) \<subseteq> dom (map_of history1)
   \<and> set (models request0) \<subseteq> dom (map_of MODELS)
   \<and> build_prompt interp0 request0 [] 1 ''claude'' =
      Inr (round1_system,
           [\<lparr>role = ''user'',
             content = ''Context: '' @ ctx request0 @ ''\<newline>\<newline>Question: '' @ question request0 @
                       ''\<newline>\<newline>Please provide your analysis and answer.''\<rparr>])
   \<and> (\<exists>c. build_prompt interp0 request0 history1 2 ''claude''
             = Inr (later_system, [\<lparr>role = ''user'', content = c\<rparr>])
          \<and> sublist (''Context: '' @ ctx request0 @ ''\<newline>\<newline>Question: '' @ question request0) c
          \<and> sublist (''Your previous response: '' @
                       (if [JStr ''A1''] = [] then ''N/A'' else py_format interp0 (last [JStr ''A1'']))) c
          \<and> (\<forall>other\<in>set (models request0). other \<noteq> ''claude'' \<longrightarrow>
                (\<forall>h. map_of history1 other = Some h \<and> h \<noteq> [] \<longrightarrow>
                   (\<exists>cfg. map_of MODELS other = Some cfg
                      \<and> sublist (''**'' @ name cfg @ ''**: '' @ py_format interp0 (last h)) c))))
   \<and> py_format interp0 (JStr ''A1'') = ''A1''"
proof -
  have a: "1 < (2::nat)" by simp
  have b: "map_of history1 ''claude'' = Some [JStr ''A1'']" by (simp add: history1_def)
  have c: "set (models request0) \<subseteq> dom (map_of history1)"
    by (simp add: request0_def history1_def)
  have d: "set (models request0) \<subseteq> dom (map_of MODELS)"
    by (simp add: request0_def MODELS_def)
  from prompts_embed_previous_responses[OF a b c d, of interp0 "[]" "''A1''"] a b c d
  show ?thesis by (intro conjI) blast+
qed

section \<open>The order of the round events\<close>

lemma emit_round_is_round: "list_all is_round (fst (emit_round r tr st))"
proof (induction r tr st rule: emit_round.induct)
  case (1 r st)
  then show ?case by simp
next
  case (2 r m v rest st)
  show ?case
  proof (cases "responses_at st m")
    case (Inl e)
    then show ?thesis by simp
  next
    case (Inr h)
    show ?thesis
    proof (cases "MODELS_at m")
      case (Inl e)
      with Inr show ?thesis by simp
    next
      case cfg: (Inr cfg)
      obtain evs res where e: "emit_round r rest (AList.update m (h @ [v]) st) = (evs, res)"
        by (cases "emit_round r rest (AList.update m (h @ [v]) st)") auto
      from 2[OF Inr cfg] e have "list_all is_round evs" by simp
      with Inr cfg e show ?thesis by simp
    qed
  qed
qed

lemma run_round_is_round: "list_all is_round (fst (run_round I environ latency request r st))"
  by (simp add: run_round_def emit_round_is_round split: sum.splits)

lemma run_rounds_is_round: "list_all is_round (fst (run_rounds I environ latency request rs st))"
proof (induction rs arbitrary: st)
  case Nil
  then show ?case by simp
next
  case (Cons r rs)
  obtain evs1 res1 where 1: "run_round I environ latency request r st = (evs1, res1)"
    by (cases "run_round I environ latency request r st") auto
  from run_round_is_round[of I environ latency request r st] 1 have e1: "list_all is_round evs1"
    by simp
  show ?case
  proof (cases res1)
    case (Inl e)
    with 1 e1 show ?thesis by simp
  next
    case (Inr st1)
    obtain evs2 res2 where 2: "run_rounds I environ latency request rs st1 = (evs2, res2)"
      by (cases "run_rounds I environ latency request rs st1") auto
    from Cons.IH[of st1] 2 have "list_all is_round evs2" by simp
    with 1 2 e1 Inr show ?thesis by simp
  qed
qed

lemma consensus_event_is_consensus:
  "consensus_event I environ request st = Inr ev \<Longrightarrow> \<exists>s a. ev = ConsensusEvent s a"
  by (auto simp: consensus_event_def and_then_def split: sum.splits)

lemma round_keys_tail [simp]: "round_keys [ConsensusEvent s a, DoneEvent] = []"
  by (simp add: round_keys_def)

text \<open>
  C2. Whatever the provider replies, the latencies of the calls and the request, the
  round events of a stream come first and their (round, participant) keys are an initial
  part of the sequence "round 1 for every participant in configured order, then round 2
  for every participant in configured order, ...": within a round the events follow the
  configured list, and no event of a round comes before all events of the round before.
  When the rounds have all run, and so in every stream that reaches the done event, the
  keys are the whole sequence. After the round events the stream holds nothing, or one
  consensus event and the done event. The whole stream is the same for any two
  assignments of latencies to the calls.
\<close>

theorem round_events_in_configured_order:
  "prefix (round_keys (fst (run_debate_stream I environ latency request)))
     (grid (models request) (nat (rounds request)))
   \<and> ((\<exists>st. rounds_state I environ latency request (nat (rounds request)) = Inr st) \<longrightarrow>
        round_keys (fst (run_debate_stream I environ latency request))
          = grid (models request) (nat (rounds request)))
   \<and> (snd (run_debate_stream I environ latency request) = None \<longrightarrow>
        round_keys (fst (run_debate_stream I environ latency request))
          = grid (models request) (nat (rounds request)))
   \<and> (\<exists>revs rest. fst (run_debate_stream I environ latency request) = revs @ rest
          \<and> list_all is_round revs
          \<and> (rest = [] \<or> (\<exists>s a. rest = [ConsensusEvent s a, DoneEvent])))
   \<and> run_debate_stream I environ latency request = run_debate_stream I environ latency' request"
proof -
  define R where "R = nat (rounds request)"
  define init where "init = init_responses (models request)"
  obtain evs res where r0: "run_rounds I environ latency request [1..<Suc R] init = (evs, res)"
    by (cases "run_rounds I environ latency request [1..<Suc R] init") auto
  have range: "[1..<nat (rounds request + 1)] = [1..<Suc R]"
    unfolding R_def by (rule rounds_range)
  have r: "run_rounds I environ latency request [1..<nat (rounds request + 1)]
             (init_responses (models request)) = (evs, res)"
    using r0 unfolding range init_def .
  have g: "concat (map (\<lambda>r. map (Pair r) (models request)) [1..<Suc R])
      = grid (models request) R"
    by (simp only: grid_def)
  from run_rounds_keys[OF r0] have k: "prefix (round_keys evs) (grid (models request) R)"
    and k': "\<And>st'. res = Inr st' \<Longrightarrow> round_keys evs = grid (models request) R"
    unfolding g by blast+
  from run_rounds_is_round[of I environ latency request "[1..<Suc R]" init] r0
  have all: "list_all is_round evs" by simp
  have st: "rounds_state I environ latency request R = res"
    using r0 by (simp add: rounds_state_def init_def)
  consider (raised) e where "res = Inl e" "run_debate_stream I environ latency request = (evs, Some e)"
    | (aborted) st e where "res = Inr st" "run_debate_stream I environ latency request = (evs, Some e)"
    | (finished) st s a where "res = Inr st"
        "run_debate_stream I environ latency request = (evs @ [ConsensusEvent s a, DoneEvent], None)"
  proof (cases res)
    case (Inl e)
    with r have "run_debate_stream I environ latency request = (evs, Some e)"
      by (simp add: run_debate_stream_def)
    with Inl that(1) show ?thesis by blast
  next
    case (Inr st)
    show ?thesis
    proof (cases "consensus_event I environ request st")
      case (Inl e)
      with r Inr have "run_debate_stream I environ latency request = (evs, Some e)"
        by (simp add: run_debate_stream_def)
      with Inr that(2) show ?thesis by blast
    next
      case ev: (Inr ev)
      from consensus_event_is_consensus[OF ev] obtain s a where "ev = ConsensusEvent s a" by blast
      with r Inr ev have "run_debate_stream I environ latency request
          = (evs @ [ConsensusEvent s a, DoneEvent], None)"
        by (simp add: run_debate_stream_def)
      with Inr that(3) show ?thesis by blast
    qed
  qed
  then have main: "prefix (round_keys (fst (run_debate_stream I environ latency request)))
       (grid (models request) R)
     \<and> ((\<exists>st. res = Inr st) \<longrightarrow>
          round_keys (fst (run_debate_stream I environ latency request)) = grid (models request) R)
     \<and> (snd (run_debate_stream I environ latency request) = None \<longrightarrow>
          round_keys (fst (run_debate_stream I environ latency request)) = grid (models request) R)
     \<and> (\<exists>revs rest. fst (run_debate_stream I environ latency request) = revs @ rest
          \<and> list_all is_round revs
          \<and> (rest = [] \<or> (\<exists>s a. rest = [ConsensusEvent s a, DoneEvent])))"
  proof cases
    case (raised e)
    have "fst (run_debate_stream I environ latency request) = evs @ []" using raised by simp
    with all have "\<exists>revs rest. fst (run_debate_stream I environ latency request) = revs @ rest
          \<and> list_all is_round revs
          \<and> (rest = [] \<or> (\<exists>s a. rest = [ConsensusEvent s a, DoneEvent]))" by blast
    with raised k show ?thesis by simp
  next
    case (aborted st e)
    have "fst (run_debate_stream I environ latency request) = evs @ []" using aborted by simp
    with all have "\<exists>revs rest. fst (run_debate_stream I environ latency request) = revs @ rest
          \<and> list_all is_round revs
          \<and> (rest = [] \<or> (\<exists>s a. rest = [ConsensusEvent s a, DoneEvent]))" by blast
    with aborted k k'[OF aborted(1)] show ?thesis by simp
  next
    case (finished st s a)
    have "fst (run_debate_stream I environ latency request) = evs @ [ConsensusEvent s a, DoneEvent]"
      using finished by simp
    with all have "\<exists>revs rest. fst (run_debate_stream I environ latency request) = revs @ rest
          \<and> list_all is_round revs
          \<and> (rest = [] \<or> (\<exists>s a. rest = [ConsensusEvent s a, DoneEvent]))" by blast
    with finished k k'[OF finished(1)] show ?thesis by simp
  qed
  have lat: "run_debate_stream I environ latency request = run_debate_stream I environ latency' request"
    by (simp add: run_debate_stream_def run_rounds_latency[of _ _ latency _ _ _ latency'])
  from main lat show ?thesis unfolding st[symmetric] R_def by blast
qed

theorem round_events_in_configured_order_witness:
  "snd (run_debate_stream interp0 (env_reply (JStr ''fine'')) no_latency request0) = None
   \<and> round_keys (fst (run_debate_stream interp0 (env_reply (JStr ''fine'')) no_latency request0))
       = grid (models request0) (nat (rounds request0))
   \<and> grid (models request0) (nat (rounds request0))
       = [(1, ''claude''), (1, ''gpt''), (2, ''claude''), (2, ''gpt'')]"
proof -
  have b: "snd (run_debate_stream interp0 (env_reply (JStr ''fine'')) no_latency request0) = None"
    by code_simp
  have g: "grid (models request0) (nat (rounds request0))
       = [(1, ''claude''), (1, ''gpt''), (2, ''claude''), (2, ''gpt'')]"
    by code_simp
  from round_events_in_configured_order[of interp0 "env_reply (JStr ''fine'')" no_latency request0]
    b g show ?thesis by blast
qed

section \<open>Lower-casing and splitting\<close>

lemma length_lower: "length (lower s) = length s"
  by (simp add: lower_def)

text \<open>
  \<open>split\<close> is determined by three facts: the empty string has no token, a non-empty
  string without whitespace is its own single token, and a whitespace character
  separates the tokens before it from the tokens after it.
\<close>

lemma split_from_no_space:
  "\<forall>c\<in>set s. \<not> is_space c \<Longrightarrow> split_from cur s = (if cur @ s = [] then [] else [cur @ s])"
  by (induction s arbitrary: cur) auto

lemma split_from_space:
  "is_space c \<Longrightarrow> split_from cur (a @ c # b) = split_from cur a @ split b"
  by (induction a arbitrary: cur) (auto simp: split_def)

lemma split_Nil: "split [] = []"
  by (simp add: split_def)

lemma split_no_space: "s \<noteq> [] \<Longrightarrow> \<forall>c\<in>set s. \<not> is_space c \<Longrightarrow> split s = [s]"
  by (simp add: split_def split_from_no_space)

lemma split_space: "is_space c \<Longrightarrow> split (a @ c # b) = split a @ split b"
  using split_from_space[of c "[]" a b] by (simp add: split_def)

lemma split_tokens:
  "w \<in> set (split_from cur s) \<Longrightarrow> (\<forall>c\<in>set cur. \<not> is_space c) \<Longrightarrow>
   w \<noteq> [] \<and> (\<forall>c\<in>set w. \<not> is_space c)"
proof (induction s arbitrary: cur)
  case Nil
  then show ?case by (auto split: if_splits)
next
  case (Cons c s)
  show ?case
  proof (cases "is_space c")
    case True
    with Cons.prems have "w = cur \<and> cur \<noteq> [] \<or> w \<in> set (split_from [] s)"
      by (auto split: if_splits)
    then show ?thesis
    proof
      assume "w = cur \<and> cur \<noteq> []"
      with Cons.prems(2) show ?thesis by simp
    next
      assume "w \<in> set (split_from [] s)"
      from Cons.IH[OF this] show ?thesis by simp
    qed
  next
    case False
    with Cons.prems have "w \<in> set (split_from (cur @ [c]) s)" by simp
    moreover have "\<forall>d\<in>set (cur @ [c]). \<not> is_space d" using False Cons.prems(2) by simp
    ultimately show ?thesis by (rule Cons.IH)
  qed
qed

text \<open>Letters and whitespace beyond ASCII.\<close>

lemma lower_latin1_example:
  "lower (''Caf'' @ [CHR 0xC9, CHR 0xD7, CHR 0xDE, CHR 0xDF, CHR 0xFF] @ ''Z9'')
     = ''caf'' @ [CHR 0xE9, CHR 0xD7, CHR 0xFE, CHR 0xDF, CHR 0xFF] @ ''z9''"
  by code_simp

lemma split_latin1_example:
  "split (''  alpha'' @ [CHR 0xA0] @ ''bravo'' @ [CHR 0x85, CHR 0x1C] @ ''c d\<newline>'')
     = [''alpha'', ''bravo'', ''c'', ''d'']"
  by code_simp

text \<open>
  The analysis of the specification's example, whose two responses share no meaningful
  word, and of two responses with Latin-1 letters and whitespace.
\<close>

lemma analyze_consensus_cat_example:
  "analyze_consensus interp0 (str_dict cat_responses) =
     Inr \<lparr>models_compared = [''a'', ''b''], common_themes = [],
          response_lengths = [(''a'', 11), (''b'', 15)]\<rparr>"
  by code_simp

lemma analyze_consensus_latin1_example:
  "analyze_consensus interp0 (str_dict cafe_responses) =
     Inr \<lparr>models_compared = [''a'', ''b''],
          common_themes = [''caf'' @ [CHR 0xE9], ''culture''],
          response_lengths = [(''a'', 17), (''b'', 18)]\<rparr>"
  by code_simp

section \<open>Debates whose providers answer with text\<close>

lemma attempt_text: "text_outcome extract outcome \<Longrightarrow> is_str (attempt I label extract outcome)"
  by (auto simp: text_outcome_def attempt_def handle_is_str api_error_is_str
      split: post_outcome.splits sum.splits)

lemma is_str_JStr: "is_str (JStr s)"
  by (simp add: is_str_def)

lemma call_model_text:
  "text_env environ \<Longrightarrow> is_str (call_model I (environ cid) m keys messages system)"
  by (simp add: call_model_def call_claude_def call_gpt_def call_gemini_def text_env_def
      attempt_text is_str_JStr)

lemma traverse_ok: "\<forall>x\<in>set xs. \<exists>y. f x = Inr y \<Longrightarrow> \<exists>ys. traverse f xs = Inr ys"
proof (induction xs)
  case Nil
  then show ?case by simp
next
  case (Cons x xs)
  then obtain y ys where "f x = Inr y" "traverse f xs = Inr ys" by auto
  then show ?case by simp
qed

lemma keys_init_responses: "set (map fst (init_responses ms)) = set ms"
proof -
  have "m \<in> set (map fst (init_responses ms)) \<longleftrightarrow> m \<in> set ms" for m
    using map_of_init_responses[of ms m] map_of_eq_None_iff[of "init_responses ms" m]
    by (auto split: if_splits)
  then show ?thesis by blast
qed

lemma distinct_init_responses: "distinct (map fst (init_responses ms))"
proof -
  have "distinct (map fst d) \<Longrightarrow> distinct (map fst (fold (\<lambda>k d. AList.update k [] d) ms d))"
    for d :: history
    by (induction ms arbitrary: d) (simp_all add: distinct_update)
  from this[of "[]"] show ?thesis by (simp add: init_responses_def)
qed

lemma well_formed_dom:
  "well_formed ms b st \<Longrightarrow> (map_of st m \<noteq> None) = (m \<in> set ms)"
proof -
  assume "well_formed ms b st"
  then have "map fst st = map fst (init_responses ms)" by (simp add: well_formed_def)
  then have "set (map fst st) = set ms" by (simp only: keys_init_responses)
  then show ?thesis using map_of_eq_None_iff[of st m] by auto
qed

lemma well_formed_init: "well_formed ms False (init_responses ms)"
proof -
  have "list_all is_str h \<and> (False \<longrightarrow> h \<noteq> [])"
    if "map_of (init_responses ms) m = Some h" for m h
  proof -
    from that have "h = []" by (simp add: map_of_init_responses split: if_splits)
    then show ?thesis by simp
  qed
  then show ?thesis unfolding well_formed_def by blast
qed

lemma emit_round_ok:
  assumes "\<forall>m\<in>fst ` set tr. map_of st m \<noteq> None \<and> map_of MODELS m \<noteq> None"
  shows "\<exists>evs st'. emit_round r tr st = (evs, Inr st') \<and> map fst st' = map fst st"
  using assms
proof (induction r tr st rule: emit_round.induct)
  case (1 r st)
  then show ?case by simp
next
  case (2 r m v rest st)
  from 2(2) obtain h where h: "map_of st m = Some h" by auto
  then have rh: "responses_at st m = Inr h" by (simp add: responses_at_def)
  from 2(2) obtain cfg where "map_of MODELS m = Some cfg" by auto
  then have cfg: "MODELS_at m = Inr cfg" by (simp add: MODELS_at_def)
  have "\<forall>k\<in>fst ` set rest. map_of (AList.update m (h @ [v]) st) k \<noteq> None \<and> map_of MODELS k \<noteq> None"
    using 2(2) by (auto simp: update_conv')
  from 2(1)[OF rh cfg this] obtain evs st' where
    e: "emit_round r rest (AList.update m (h @ [v]) st) = (evs, Inr st')"
    and k: "map fst st' = map fst (AList.update m (h @ [v]) st)" by blast
  have "m \<in> set (map fst st)" using h by (metis map_of_eq_None_iff option.distinct(1) set_map)
  then have "map fst (AList.update m (h @ [v]) st) = map fst st" by (simp add: update_keys)
  with e k rh cfg show ?case by simp
qed

lemma build_prompt_ok:
  assumes "well_formed (models request) b st"
    and "set (models request) \<subseteq> dom (map_of MODELS)"
    and "m \<in> set (models request)"
  shows "\<exists>p. build_prompt I request st r m = Inr p"
proof (cases "r = 1")
  case True
  then show ?thesis by (simp add: build_prompt_def)
next
  case False
  have a3: "\<forall>other\<in>set (models request). \<exists>h. map_of st other = Some h"
    using well_formed_dom[OF assms(1)] by auto
  have a4: "\<forall>other\<in>set (models request). map_of MODELS other \<noteq> None"
    using assms(2) by blast
  from other_responses_ok[OF a3 a4, of I m] obtain xs where
    "other_responses I st m (models request) = Inr xs" by blast
  moreover from a3 assms(3) obtain own where "responses_at st m = Inr own"
    by (auto simp: responses_at_def)
  ultimately show ?thesis using False by (simp add: build_prompt_def)
qed

lemma build_tasks_ok:
  assumes "well_formed (models request) b st"
    and "set (models request) \<subseteq> dom (map_of MODELS)"
  shows "\<exists>tasks. build_tasks I request st r = Inr tasks"
  unfolding build_tasks_def
proof (rule traverse_ok, rule ballI)
  fix m assume "m \<in> set (models request)"
  from build_prompt_ok[OF assms this, of I r] obtain p where
    "build_prompt I request st r m = Inr p" by blast
  then show "\<exists>y. and_then (build_prompt I request st r m)
           (\<lambda>(system, messages). Inr (m, system, messages)) = Inr y"
    by (cases p) simp
qed

lemma round_results_text:
  assumes "text_env environ"
  shows "list_all is_str (round_results I environ latency request r tasks)"
proof -
  have "is_str (run_task I environ request r t)" for t
    by (cases t) (simp add: run_task_def call_model_text[OF assms])
  then show ?thesis by (simp add: round_results_def gather_eq list_all_iff)
qed

lemma run_round_ok:
  assumes "text_env environ"
    and "set (models request) \<subseteq> dom (map_of MODELS)"
    and "well_formed (models request) b st"
  shows "\<exists>evs st'. run_round I environ latency request r st = (evs, Inr st')
           \<and> well_formed (models request) True st'"
proof -
  from build_tasks_ok[OF assms(3,2), of I r] obtain tasks where
    t: "build_tasks I request st r = Inr tasks" by blast
  define rs where "rs = round_results I environ (latency r) request r tasks"
  have ft: "map fst tasks = models request" using t by (rule build_tasks_fst)
  then have lt: "length tasks = length (models request)" by (metis length_map)
  have lr: "length rs = length (models request)"
    using lt by (simp add: rs_def round_results_def gather_eq)
  have strs: "list_all is_str rs" unfolding rs_def using assms(1) by (rule round_results_text)
  have keys: "\<forall>m\<in>fst ` set (zip (models request) rs). map_of st m \<noteq> None \<and> map_of MODELS m \<noteq> None"
  proof
    fix m assume "m \<in> fst ` set (zip (models request) rs)"
    then have "m \<in> set (models request)" by (auto dest: set_zip_leftD)
    with well_formed_dom[OF assms(3), of m] assms(2) show "map_of st m \<noteq> None \<and> map_of MODELS m \<noteq> None"
      by blast
  qed
  from emit_round_ok[OF keys, of r] obtain evs st' where
    e: "emit_round r (zip (models request) rs) st = (evs, Inr st')"
    and k: "map fst st' = map fst st" by blast
  have rr: "run_round I environ latency request r st = (evs, Inr st')"
    using e by (simp add: run_round_def t ft rs_def)
  have hist: "list_all is_str h' \<and> (True \<longrightarrow> h' \<noteq> [])" if h': "map_of st' m = Some h'" for m h'
  proof -
    from emit_round_history[OF e, of m] h' obtain h where
      h: "map_of st m = Some h"
      and eq: "h' = h @ map snd (filter (\<lambda>p. fst p = m) (zip (models request) rs))"
      by (auto split: option.splits)
    from assms(3) h have 1: "list_all is_str h" by (simp add: well_formed_def)
    have 2: "list_all is_str (map snd (filter (\<lambda>p. fst p = m) (zip (models request) rs)))"
      using strs by (auto simp: list_all_iff dest: set_zip_rightD)
    from h well_formed_dom[OF assms(3), of m] have "m \<in> set (models request)" by simp
    then obtain i where i: "i < length (models request)" "models request ! i = m"
      by (auto simp: in_set_conv_nth)
    then have "(m, rs ! i) \<in> set (zip (models request) rs)"
      using lr by (auto simp: set_zip)
    then have 3: "filter (\<lambda>p. fst p = m) (zip (models request) rs) \<noteq> []"
      by (force simp: filter_empty_conv)
    from 1 2 3 eq show ?thesis by simp
  qed
  from assms(3) have "map fst st = map fst (init_responses (models request))"
    by (simp add: well_formed_def)
  with k have "map fst st' = map fst (init_responses (models request))" by simp
  with hist have "well_formed (models request) True st'"
    unfolding well_formed_def by blast
  with rr show ?thesis by blast
qed

lemma run_rounds_ok:
  assumes "text_env environ"
    and "set (models request) \<subseteq> dom (map_of MODELS)"
  shows "well_formed (models request) b st \<Longrightarrow>
    \<exists>evs st'. run_rounds I environ latency request rs st = (evs, Inr st')
           \<and> well_formed (models request) (b \<or> rs \<noteq> []) st'"
proof (induction rs arbitrary: st b)
  case Nil
  then show ?case by simp
next
  case (Cons r rs)
  from run_round_ok[OF assms Cons.prems, of I latency r] obtain evs1 st1 where
    1: "run_round I environ latency request r st = (evs1, Inr st1)"
    and w1: "well_formed (models request) True st1" by blast
  from Cons.IH[OF w1] obtain evs2 st2 where
    2: "run_rounds I environ latency request rs st1 = (evs2, Inr st2)"
    and w2: "well_formed (models request) True st2" by auto
  from 1 2 w2 show ?case by simp
qed

lemma str_dict_ex:
  "\<forall>p\<in>set fs. is_str (snd p) \<Longrightarrow> \<exists>rs. fs = str_dict rs"
proof (induction fs)
  case Nil
  have "[] = str_dict []" by (simp add: str_dict_def)
  then show ?case by blast
next
  case (Cons p fs)
  then obtain rs where rs: "fs = str_dict rs" by auto
  obtain m v where p: "p = (m, v)" by (cases p)
  from Cons.prems p obtain s where v: "v = JStr s"
    by (cases v) (simp_all add: is_str_def)
  have "p # fs = str_dict ((m, s) # rs)" using p v rs by (simp add: str_dict_def)
  then show ?case by blast
qed

lemma traverse_map:
  "\<forall>x\<in>set xs. f x = Inr (g x) \<Longrightarrow> traverse f xs = Inr (map g xs)"
  by (induction xs) auto

lemma consensus_event_ok:
  assumes wf: "well_formed (models request) True st"
    and known: "set (models request) \<subseteq> dom (map_of MODELS)"
    and ne: "models request \<noteq> []"
  shows "\<exists>s a. consensus_event I environ request st = Inr (ConsensusEvent s a)"
proof -
  from wf have keys: "map fst st = map fst (init_responses (models request))"
    by (simp add: well_formed_def)
  then have d: "distinct (map fst st)" by (simp add: distinct_init_responses)
  have mem: "h \<noteq> [] \<and> list_all is_str h \<and> m \<in> set (models request)"
    if "(m, h) \<in> set st" for m h
  proof -
    from d that have "map_of st m = Some h" by (rule map_of_is_SomeI)
    with wf well_formed_dom[OF wf, of m] show ?thesis by (simp add: well_formed_def)
  qed
  define fs where "fs = map (\<lambda>(m, h). (m, last h)) st"
  have "\<forall>x\<in>set st. (case x of (model_id, responses) \<Rightarrow>
            case responses of [] \<Rightarrow> Inl IndexError | _ # _ \<Rightarrow> Inr (model_id, last responses))
          = Inr ((\<lambda>(m, h). (m, last h)) x)"
  proof
    fix x assume x: "x \<in> set st"
    obtain m h where mh: "x = (m, h)" by (cases x)
    with x mem[of m h] have "h \<noteq> []" by simp
    then obtain a b where "h = a # b" by (cases h) auto
    with mh show "(case x of (model_id, responses) \<Rightarrow>
            case responses of [] \<Rightarrow> Inl IndexError | _ # _ \<Rightarrow> Inr (model_id, last responses))
          = Inr ((\<lambda>(m, h). (m, last h)) x)" by simp
  qed
  then have f: "final_responses st = Inr fs"
    unfolding final_responses_def fs_def by (rule traverse_map)
  have strs: "\<forall>p\<in>set fs. is_str (snd p)"
  proof
    fix p assume "p \<in> set fs"
    then obtain m h where mh: "(m, h) \<in> set st" and p: "p = (m, last h)"
      by (auto simp: fs_def)
    from mem[OF mh] have "last h \<in> set h" "list_all is_str h" by simp_all
    then show "is_str (snd p)" using p by (simp add: list_all_iff)
  qed
  from str_dict_ex[OF strs] obtain rs where rs: "fs = str_dict rs" by blast
  from analyze_consensus_str_dict[of I rs] obtain a where
    a: "analyze_consensus I fs = Inr a" unfolding rs by blast
  from ne obtain m0 ms where fm: "first_model (models request) = Inr m0"
    by (cases "models request") (simp_all add: first_model_def)
  have "\<forall>x\<in>set fs. \<exists>y. (case x of (model_id, response) \<Rightarrow>
                  and_then (MODELS_at model_id) (\<lambda>cfg.
                    Inr (labelled I (name cfg) response @ ''\<newline>\<newline>''))) = Inr y"
  proof
    fix x assume "x \<in> set fs"
    then obtain m h where mh: "(m, h) \<in> set st" and x: "x = (m, last h)"
      by (auto simp: fs_def)
    from mem[OF mh] known obtain cfg where "map_of MODELS m = Some cfg" by blast
    then have "MODELS_at m = Inr cfg" by (simp add: MODELS_at_def)
    with x show "\<exists>y. (case x of (model_id, response) \<Rightarrow>
                  and_then (MODELS_at model_id) (\<lambda>cfg.
                    Inr (labelled I (name cfg) response @ ''\<newline>\<newline>''))) = Inr y"
      by simp
  qed
  from traverse_ok[OF this] obtain parts where
    "traverse (\<lambda>(model_id, response).
                  and_then (MODELS_at model_id) (\<lambda>cfg.
                    Inr (labelled I (name cfg) response @ ''\<newline>\<newline>''))) fs = Inr parts"
    by blast
  then obtain prompt where sp: "summary_prompt I request fs = Inr prompt"
    by (simp add: summary_prompt_def)
  from f a fm sp show ?thesis by (simp add: consensus_event_def)
qed

lemma length_grid: "length (grid ms R) = length ms * R"
proof -
  have "length (concat (map (\<lambda>r. map (Pair r) ms) rs)) = length ms * length rs" for rs :: "nat list"
    by (induction rs) simp_all
  from this[of "[1..<Suc R]"] show ?thesis by (simp only: grid_def length_upt) simp
qed

lemma round_keys_length: "list_all is_round evs \<Longrightarrow> length (round_keys evs) = length evs"
proof (induction evs)
  case Nil
  then show ?case by (simp add: round_keys_def)
next
  case (Cons e evs)
  then show ?case by (cases e) (simp_all add: round_keys_def)
qed

text \<open>
  When every provider answers with text, the participants are in the catalog, there is
  at least one of them and at least one round, the stream is complete: one round event
  for every round and participant, in the order of the rounds and of the configured
  list, then one consensus event, then the done event, and no exception.
\<close>

lemma stream_shape:
  assumes env: "text_env environ"
    and known: "set (models request) \<subseteq> dom (map_of MODELS)"
    and ne: "models request \<noteq> []"
    and pos: "1 \<le> rounds request"
  shows "\<exists>revs s a.
      run_debate_stream I environ latency request = (revs @ [ConsensusEvent s a, DoneEvent], None)
      \<and> list_all is_round revs
      \<and> round_keys revs = grid (models request) (nat (rounds request))
      \<and> length revs = length (models request) * nat (rounds request)"
proof -
  define R where "R = nat (rounds request)"
  have range: "[1..<nat (rounds request + 1)] = [1..<Suc R]"
    unfolding R_def by (rule rounds_range)
  have "0 < R" using pos by (simp add: R_def)
  then have nonempty: "[1..<Suc R] \<noteq> []" by simp
  have w0: "well_formed (models request) False (init_responses (models request))"
    by (rule well_formed_init)
  from run_rounds_ok[OF env known w0, of I latency "[1..<Suc R]"] nonempty
  obtain revs st where
    r: "run_rounds I environ latency request [1..<Suc R] (init_responses (models request))
          = (revs, Inr st)"
    and w: "well_formed (models request) True st" by auto
  from consensus_event_ok[OF w known ne, of I environ] obtain s a where
    c: "consensus_event I environ request st = Inr (ConsensusEvent s a)" by blast
  have run: "run_debate_stream I environ latency request
      = (revs @ [ConsensusEvent s a, DoneEvent], None)"
    unfolding run_debate_stream_def range by (simp only: r c prod.case sum.case)
  from run_rounds_is_round[of I environ latency request "[1..<Suc R]"
      "init_responses (models request)"] r
  have all: "list_all is_round revs" by simp
  from run_rounds_keys[OF r] have k: "round_keys revs = grid (models request) R"
    by (simp only: grid_def)
  from round_keys_length[OF all] k have "length revs = length (models request) * R"
    by (simp only: length_grid)
  with run all k show ?thesis unfolding R_def by blast
qed

lemma text_env_reply: "text_env (env_reply (JStr s))"
  by (simp add: text_env_def text_outcome_def env_reply_def reply_def
      claude_extract_def gpt_extract_def gemini_extract_def and_then_def subscript_def
      subscript0_def is_str_def)

lemma stream_shape_example:
  "\<exists>revs s a.
      run_debate_stream interp0 (env_reply (JStr ''fine'')) no_latency request0
        = (revs @ [ConsensusEvent s a, DoneEvent], None)
      \<and> list_all is_round revs
      \<and> round_keys revs = grid (models request0) (nat (rounds request0))
      \<and> length revs = length (models request0) * nat (rounds request0)"
proof (rule stream_shape)
  show "text_env (env_reply (JStr ''fine''))" by (rule text_env_reply)
  show "set (models request0) \<subseteq> dom (map_of MODELS)" by (simp add: request0_def MODELS_def)
  show "models request0 \<noteq> []" by (simp add: request0_def)
  show "1 \<le> rounds request0" by (simp add: request0_def)
qed

text \<open>
  Tokens separated by no-break spaces are split like tokens separated by spaces: the two
  crowded responses share 11 meaningful tokens either way.
\<close>

lemma split_nbsp_example: "split (lower crowded_nbsp) = split (lower crowded)"
  by code_simp

lemma analyze_consensus_nbsp_example:
  "analyze_consensus interp0 [(''claude'', JStr crowded_nbsp), (''gpt'', JStr crowded_nbsp)] =
       Inr \<lparr>models_compared = [''claude'', ''gpt''],
            common_themes = [''alpha'', ''bravo'', ''cable'', ''candy'', ''carry'', ''chair'',
                             ''charm'', ''chess'', ''china'', ''civic''],
            response_lengths = [(''claude'', 73), (''gpt'', 73)]\<rparr>"
  by code_simp

end
